theory Spec2Isabelle
  imports Complex_Main
begin

section \<open>Finite-difference Poisson assembly and direct solve (THE.py)\<close>

text \<open>
  The class \<open>Problem\<close> of \<open>THE.py\<close> assembles the finite-difference Poisson system on an
  \<open>n \<times> n\<close> (or \<open>n \<times> n \<times> n\<close>) grid, reorders it, factorises it and solves it by
  triangular substitution.

  Numbers: Python floats are read as exact reals (\<open>math.sin\<close> is \<open>sin\<close>); rounding is
  not part of this development.  The matrix entries the assembler writes (0, 1, 4, 6, -1)
  are exact in either reading.  Grid sizes and linear indices are natural numbers: every
  index the source computes comes from \<open>range(n_elements)\<close>, and each subtraction of the
  source is guarded by the comparison that keeps it non-negative.
\<close>

subsection \<open>Grid indexer\<close>

text \<open>
  \<open>get_neighbors_2d\<close>: the four guarded appends, in the order of the source.  For
  \<open>n_elements = 0\<close> the source raises \<open>ZeroDivisionError\<close> at \<open>p // n_elements\<close>; no
  caller reaches that (a loop over \<open>range(0)\<close> has no pass), and every statement about
  the two neighbour functions has \<open>n \<ge> 1\<close>.
\<close>

definition get_neighbors_2d :: "nat \<Rightarrow> nat \<Rightarrow> nat list" where
  "get_neighbors_2d p n_elements =
     (let i = p div n_elements;
          j = p mod n_elements
      in (if j > 0 then [p - 1] else [])
       @ (if j < n_elements - 1 then [p + 1] else [])
       @ (if i > 0 then [p - n_elements] else [])
       @ (if i < n_elements - 1 then [p + n_elements] else []))"

text \<open>\<open>get_neighbors_3d\<close>: the six guarded appends, in the order of the source.\<close>

definition get_neighbors_3d :: "nat \<Rightarrow> nat \<Rightarrow> nat list" where
  "get_neighbors_3d p n_elements =
     (let n2 = n_elements * n_elements;
          i = p div n2;
          j = (p mod n2) div n_elements;
          k = p mod n_elements
      in (if k > 0 then [p - 1] else [])
       @ (if k < n_elements - 1 then [p + 1] else [])
       @ (if j > 0 then [p - n_elements] else [])
       @ (if j < n_elements - 1 then [p + n_elements] else [])
       @ (if i > 0 then [p - n2] else [])
       @ (if i < n_elements - 1 then [p + n2] else []))"

text \<open>
  The grid points one axis-aligned step away from \<open>(i, j)\<close> (resp. \<open>(i, j, k)\<close>) that lie
  inside the grid, as linear indices.  These sets are the reference the neighbour lists
  are compared with.
\<close>

definition dist1 :: "nat \<Rightarrow> nat \<Rightarrow> bool" where
  "dist1 a b \<longleftrightarrow> (a = Suc b \<or> b = Suc a)"

definition grid_neighbours_2d :: "nat \<Rightarrow> nat \<Rightarrow> nat set" where
  "grid_neighbours_2d p n =
     {i' * n + j' | i' j'. i' < n \<and> j' < n \<and>
        ((dist1 i' (p div n) \<and> j' = p mod n) \<or> (i' = p div n \<and> dist1 j' (p mod n)))}"

definition grid_neighbours_3d :: "nat \<Rightarrow> nat \<Rightarrow> nat set" where
  "grid_neighbours_3d p n =
     {i' * n * n + j' * n + k' | i' j' k'. i' < n \<and> j' < n \<and> k' < n \<and>
        ((dist1 i' (p div (n * n)) \<and> j' = (p mod (n * n)) div n \<and> k' = p mod n)
       \<or> (i' = p div (n * n) \<and> dist1 j' ((p mod (n * n)) div n) \<and> k' = p mod n)
       \<or> (i' = p div (n * n) \<and> j' = (p mod (n * n)) div n \<and> dist1 k' (p mod n)))}"

definition on_boundary_2d :: "nat \<Rightarrow> nat \<Rightarrow> bool" where
  "on_boundary_2d p n \<longleftrightarrow>
     (let i = p div n; j = p mod n in i = 0 \<or> i = n - 1 \<or> j = 0 \<or> j = n - 1)"

definition on_boundary_3d :: "nat \<Rightarrow> nat \<Rightarrow> bool" where
  "on_boundary_3d p n \<longleftrightarrow>
     (let i = p div (n * n); j = (p mod (n * n)) div n; k = p mod n
      in i = 0 \<or> i = n - 1 \<or> j = 0 \<or> j = n - 1 \<or> k = 0 \<or> k = n - 1)"


subsection \<open>Vectors and matrices\<close>

text \<open>
  A vector (\<open>numpy\<close> array) is a list of reals; a matrix is the list of its rows, which is
  what \<open>toarray()\<close> gives for the sparse formats.  \<open>lil_matrix((N, N))\<close> starts with no stored
  entry, every read giving 0; assigning 0 removes the entry, so \<open>nnz\<close> of the assembled
  matrix counts the entries different from 0.
\<close>

type_synonym vec = "real list"
type_synonym mat = "real list list"

datatype error = TypeError | ValueError | LinAlgError | ZeroDivisionError

text \<open>
  The value of a float division: a number, or one of the two special values a \<open>numpy\<close>
  division by zero gives (with a warning, without raising).
\<close>

datatype py_float = Finite real | NaN | Infinity

definition lil_matrix :: "nat \<Rightarrow> mat" where
  "lil_matrix N = replicate N (replicate N 0)"

definition mat_set :: "mat \<Rightarrow> nat \<Rightarrow> nat \<Rightarrow> real \<Rightarrow> mat" where
  \<comment> \<open>\<open>A[p, q] = v\<close>\<close>
  "mat_set A p q v = A[p := (A ! p)[q := v]]"

definition zero_row :: "mat \<Rightarrow> nat \<Rightarrow> mat" where
  \<comment> \<open>\<open>A[p, :] = 0\<close>\<close>
  "zero_row A p = A[p := map (\<lambda>_. 0) (A ! p)]"

definition zero_col :: "mat \<Rightarrow> nat \<Rightarrow> mat" where
  \<comment> \<open>\<open>A[:, p] = 0\<close>\<close>
  "zero_col A p = map (\<lambda>r. r[p := 0]) A"

definition count_nonzero :: "mat \<Rightarrow> nat" where
  "count_nonzero A = sum_list (map (\<lambda>r. length (filter (\<lambda>v. v \<noteq> 0) r)) A)"

definition nnz :: "mat \<Rightarrow> nat" where
  "nnz A = count_nonzero A"

definition dot :: "vec \<Rightarrow> vec \<Rightarrow> real" where
  \<comment> \<open>\<open>np.dot\<close> of two vectors of the same length\<close>
  "dot u v = sum_list (map2 (*) u v)"

definition transpose_mat :: "mat \<Rightarrow> mat" where
  \<comment> \<open>\<open>.T\<close> of a square array\<close>
  "transpose_mat L = map (\<lambda>c. map (\<lambda>r. r ! c) L) [0..<length L]"

subsection \<open>System assembler\<close>

definition spacing_of :: "nat \<Rightarrow> real" where
  "spacing_of n_elements = 1 / (real n_elements + 1)"

definition f_2d :: "real \<Rightarrow> real \<Rightarrow> real" where
  "f_2d x y = (x\<^sup>2 + y\<^sup>2) * sin (x * y)"

definition f_3d :: "real \<Rightarrow> real \<Rightarrow> real \<Rightarrow> real" where
  "f_3d x y z = (x\<^sup>2 * y\<^sup>2 + z\<^sup>2 * y\<^sup>2 + x\<^sup>2 * z\<^sup>2) * sin (x * y * z)"

text \<open>The loop state of the assembler: \<open>A\<close>, \<open>f_vector\<close> and \<open>boundary_nodes\<close>.\<close>

type_synonym asm_state = "mat \<times> vec \<times> nat list"

definition cell_2d :: "nat \<Rightarrow> nat \<Rightarrow> nat \<Rightarrow> asm_state \<Rightarrow> asm_state" where
  \<comment> \<open>the body of the double loop, lines 34 to 51\<close>
  "cell_2d n i j s =
     (case s of (A, f_vector, boundary_nodes) \<Rightarrow>
        let p = i * n + j;
            x = (real i + 1) * spacing_of n;
            y = (real j + 1) * spacing_of n
        in if i = 0 \<or> i = n - 1 \<or> j = 0 \<or> j = n - 1
           then (mat_set A p p 1, f_vector[p := sin (x * y)], boundary_nodes @ [p])
           else (fold (\<lambda>neighbor_p A. mat_set A p neighbor_p (- 1))
                      (get_neighbors_2d p n) (mat_set A p p 4),
                 f_vector[p := f_2d x y * (spacing_of n)\<^sup>2],
                 boundary_nodes))"

definition cell_3d :: "nat \<Rightarrow> nat \<Rightarrow> nat \<Rightarrow> nat \<Rightarrow> asm_state \<Rightarrow> asm_state" where
  \<comment> \<open>the body of the triple loop, lines 83 to 103\<close>
  "cell_3d n i j k s =
     (case s of (A, f_vector, boundary_nodes) \<Rightarrow>
        let p = i * n * n + j * n + k;
            x = (real i + 1) * spacing_of n;
            y = (real j + 1) * spacing_of n;
            z = (real k + 1) * spacing_of n
        in if i = 0 \<or> i = n - 1 \<or> j = 0 \<or> j = n - 1 \<or> k = 0 \<or> k = n - 1
           then (mat_set A p p 1, f_vector[p := sin (x * y * z)], boundary_nodes @ [p])
           else (fold (\<lambda>neighbor_p A. mat_set A p neighbor_p (- 1))
                      (get_neighbors_3d p n) (mat_set A p p 6),
                 f_vector[p := f_3d x y z * (spacing_of n)\<^sup>2],
                 boundary_nodes))"

definition adjust_rhs :: "(nat \<Rightarrow> nat list) \<Rightarrow> mat \<Rightarrow> nat list \<Rightarrow> vec \<Rightarrow> vec" where
  \<comment> \<open>"Adjust RHS for interior nodes": \<open>f_vector[q] -= A[q, p] * u_0\<close> where \<open>A[q, p] != 0\<close>\<close>
  "adjust_rhs neighbors_of A boundary_nodes f_vector =
     fold (\<lambda>p f_vector.
             let u_0 = f_vector ! p
             in fold (\<lambda>q f_vector.
                        if A ! q ! p \<noteq> 0
                        then f_vector[q := f_vector ! q - A ! q ! p * u_0]
                        else f_vector)
                     (neighbors_of p) f_vector)
          boundary_nodes f_vector"

definition zero_boundary :: "nat list \<Rightarrow> mat \<Rightarrow> mat" where
  \<comment> \<open>"Zero out columns and rows for boundary nodes"\<close>
  "zero_boundary boundary_nodes A =
     fold (\<lambda>p A. mat_set (zero_col (zero_row A p) p) p p 1) boundary_nodes A"

definition first_pass_2d :: "nat \<Rightarrow> asm_state" where
  \<comment> \<open>the double loop over the grid, lines 32 to 51\<close>
  "first_pass_2d n =
     (let num_points = n * n
      in fold (\<lambda>i s. fold (\<lambda>j s. cell_2d n i j s) [0..<n] s) [0..<n]
              (lil_matrix num_points, replicate num_points 0, []))"

definition assemble_2d :: "nat \<Rightarrow> mat \<times> vec" where
  "assemble_2d n =
     (case first_pass_2d n of (A, f_vector, boundary_nodes) \<Rightarrow>
        let f_vector = adjust_rhs (\<lambda>p. get_neighbors_2d p n) A boundary_nodes f_vector;
            A = zero_boundary boundary_nodes A
        in (A, f_vector))"

definition first_pass_3d :: "nat \<Rightarrow> asm_state" where
  \<comment> \<open>the triple loop over the grid, lines 80 to 103\<close>
  "first_pass_3d n =
     (let num_points = n * n * n
      in fold (\<lambda>i s. fold (\<lambda>j s. fold (\<lambda>k s. cell_3d n i j k s) [0..<n] s) [0..<n] s)
              [0..<n] (lil_matrix num_points, replicate num_points 0, []))"

definition assemble_3d :: "nat \<Rightarrow> mat \<times> vec" where
  "assemble_3d n =
     (case first_pass_3d n of (A, f_vector, boundary_nodes) \<Rightarrow>
        let f_vector = adjust_rhs (\<lambda>p. get_neighbors_3d p n) A boundary_nodes f_vector;
            A = zero_boundary boundary_nodes A
        in (A, f_vector))"

text \<open>
  \<open>build_matrix_and_rhs\<close> returns the printed lines together with the pair; for a
  dimension other than 2 and 3 it prints and returns \<open>(None, None)\<close>.
\<close>

definition build_matrix_and_rhs :: "nat \<Rightarrow> int \<Rightarrow> string list \<times> mat option \<times> vec option" where
  "build_matrix_and_rhs n_elements dimension =
     (if dimension = 2 then
        (case assemble_2d n_elements of (A, f_vector) \<Rightarrow> ([], Some A, Some f_vector))
      else if dimension = 3 then
        (case assemble_3d n_elements of (A, f_vector) \<Rightarrow> ([], Some A, Some f_vector))
      else ([''Invalid dimension''], None, None))"

subsection \<open>Reordering, factorisation and the problem object\<close>

text \<open>
  \<open>scipy.sparse.csgraph.reverse_cuthill_mckee\<close> is library code: it is a parameter \<open>rcm\<close>
  of the model, giving the permutation array for a matrix.  Two failures of the library
  call are written out: on an argument that is not a sparse matrix (here \<open>None\<close>) it
  raises \<open>TypeError\<close>, and on a matrix without rows it raises \<open>ValueError\<close> (the maximum
  of an empty array of degrees).
\<close>

definition reorder :: "(mat \<Rightarrow> nat list) \<Rightarrow> mat option \<Rightarrow> error + mat" where
  "reorder rcm m =
     (case m of
        None \<Rightarrow> Inl TypeError
      | Some A \<Rightarrow>
          if A = [] then Inl ValueError
          else let rcm_order = rcm A;
                   rows = map (\<lambda>a. A ! a) rcm_order
               in Inr (map (\<lambda>r. map (\<lambda>b. r ! b) rcm_order) rows))"

text \<open>
  Modelled from the spec: \<open>numpy.linalg.cholesky\<close> is library code.  The factor is
  computed column by column: \<open>L[j,j] = sqrt(A[j,j] - \<Sum>k<j. L[j,k]\<^sup>2)\<close>, and for \<open>i > j\<close>,
  \<open>L[i,j] = (A[i,j] - \<Sum>k<j. L[i,k] L[j,k]) / L[j,j]\<close>; a term under the square root that is
  not positive is the error "matrix not positive definite".
\<close>

definition chol_column :: "mat \<Rightarrow> nat \<Rightarrow> mat \<Rightarrow> error + mat" where
  "chol_column A j L =
     (let d = A ! j ! j - (\<Sum>k\<leftarrow>[0..<j]. L ! j ! k * L ! j ! k)
      in if d \<le> 0 then Inl LinAlgError
         else Inr (fold (\<lambda>i L. mat_set L i j
                           ((A ! i ! j - (\<Sum>k\<leftarrow>[0..<j]. L ! i ! k * L ! j ! k)) / L ! j ! j))
                        [Suc j..<length A] (mat_set L j j (sqrt d))))"

fun chol_columns :: "mat \<Rightarrow> nat list \<Rightarrow> mat \<Rightarrow> error + mat" where
  "chol_columns A [] L = Inr L"
| "chol_columns A (j # js) L =
     (case chol_column A j L of Inl e \<Rightarrow> Inl e | Inr L' \<Rightarrow> chol_columns A js L')"

definition cholesky :: "mat \<Rightarrow> error + mat" where
  "cholesky A = chol_columns A [0..<length A] (lil_matrix (length A))"

text \<open>The object: the fields \<open>__init__\<close> assigns, the two wall-clock times left out.\<close>

record problem =
  n_elements :: nat
  dimension :: int
  matrix :: mat
  rhs :: vec
  reordered_matrix :: mat
  cholesky_factor :: mat
  cholesky_factor_reorderd :: mat

definition Problem_init ::
    "(mat \<Rightarrow> nat list) \<Rightarrow> nat \<Rightarrow> int \<Rightarrow> string list \<times> (error + problem)" where
  "Problem_init rcm n d =
     (case build_matrix_and_rhs n d of (out, m, r) \<Rightarrow>
        (out,
         case reorder rcm m of
           Inl e \<Rightarrow> Inl e
         | Inr R \<Rightarrow>
            (case (m, r) of
               (Some A, Some b) \<Rightarrow>
                 (case cholesky A of
                    Inl e \<Rightarrow> Inl e
                  | Inr L \<Rightarrow>
                     (case cholesky R of
                        Inl e \<Rightarrow> Inl e
                      | Inr LR \<Rightarrow>
                          Inr \<lparr>n_elements = n, dimension = d, matrix = A, rhs = b,
                               reordered_matrix = R, cholesky_factor = L,
                               cholesky_factor_reorderd = LR\<rparr>))
             | _ \<Rightarrow> Inl TypeError)))"

subsection \<open>Exact solution, triangular solves, fill-in\<close>

definition exact_solution :: "problem \<Rightarrow> nat \<Rightarrow> string list \<times> vec option" where
  "exact_solution self n =
     (let spacing = spacing_of n
      in if dimension self = 2 then
           ([], Some (fold (\<lambda>i u. fold (\<lambda>j u.
                  let x = (real i + 1) * spacing; y = (real j + 1) * spacing; p = i * n + j
                  in u[p := sin (x * y)]) [0..<n] u) [0..<n] (replicate (n * n) 0)))
         else if dimension self = 3 then
           ([], Some (fold (\<lambda>i u. fold (\<lambda>j u. fold (\<lambda>k u.
                  let x = (real i + 1) * spacing; y = (real j + 1) * spacing;
                      z = (real k + 1) * spacing; p = i * n * n + j * n + k
                  in u[p := sin (x * y * z)]) [0..<n] u) [0..<n] u) [0..<n]
                  (replicate (n * n * n) 0)))
         else ([''Invalid dimension''], None))"

text \<open>
  The substitutions start from \<open>np.zeros_like\<close> of their vector argument, which has that
  argument's dtype; the vectors here are float arrays, read as reals.  A zero on the
  diagonal makes \<open>numpy\<close> divide by zero (a warning and \<open>inf\<close> or \<open>nan\<close>, nothing raised);
  the statements about the substitutions assume a non-zero diagonal.
\<close>

definition forward_substitution :: "mat \<Rightarrow> vec \<Rightarrow> vec" where
  "forward_substitution L b =
     (let n = length b
      in fold (\<lambda>i y. y[i := (b ! i - dot (take i (L ! i)) (take i y)) / L ! i ! i])
              [0..<n] (replicate n 0))"

definition backward_substitution :: "mat \<Rightarrow> vec \<Rightarrow> vec" where
  "backward_substitution L_T y =
     (let n = length y
      in fold (\<lambda>i x. x[i := (y ! i - dot (drop (i + 1) (L_T ! i)) (drop (i + 1) x))
                              / L_T ! i ! i])
              (rev [0..<n]) (replicate n 0))"

definition solve_cholesky :: "problem \<Rightarrow> vec" where
  \<comment> \<open>the first component of the result; the other two are wall-clock times\<close>
  "solve_cholesky self =
     (let y = forward_substitution (cholesky_factor self) (rhs self)
      in backward_substitution (transpose_mat (cholesky_factor self)) y)"

text \<open>
  \<open>fill_in_ratio\<close>.  In the reorder branch both counts are the \<open>nnz\<close> attribute, Python
  integers, whose division raises \<open>ZeroDivisionError\<close> on a zero denominator.  In the
  other branch the numerator comes from \<open>np.count_nonzero\<close>, and the division by zero
  gives \<open>nan\<close> or \<open>inf\<close> instead of raising.
\<close>

definition fill_in_ratio :: "problem \<Rightarrow> bool \<Rightarrow> error + py_float" where
  "fill_in_ratio self reorder_flag =
     (if reorder_flag
      then (let nnz_A = nnz (reordered_matrix self);
                nnz_C = nnz (reordered_matrix self)
            in if nnz_A = 0 then Inl ZeroDivisionError
               else Inr (Finite (real nnz_C / real nnz_A)))
      else (let nnz_A = nnz (matrix self);
                nnz_C = count_nonzero (cholesky_factor self)
            in if nnz_A = 0 then Inr (if nnz_C = 0 then NaN else Infinity)
               else Inr (Finite (real nnz_C / real nnz_A))))"

subsection \<open>Notions the properties are stated with\<close>

definition mat_vec :: "mat \<Rightarrow> vec \<Rightarrow> vec" where
  "mat_vec A x = map (\<lambda>r. dot r x) A"

definition square_mat :: "nat \<Rightarrow> mat \<Rightarrow> bool" where
  "square_mat N A \<longleftrightarrow> length A = N \<and> (\<forall>r \<in> set A. length r = N)"

definition lower_triangular :: "mat \<Rightarrow> bool" where
  "lower_triangular L \<longleftrightarrow> (\<forall>i < length L. \<forall>k < length L. i < k \<longrightarrow> L ! i ! k = 0)"

definition nonzero_diagonal :: "mat \<Rightarrow> bool" where
  "nonzero_diagonal L \<longleftrightarrow> (\<forall>i < length L. L ! i ! i \<noteq> 0)"

definition mat_mult :: "mat \<Rightarrow> mat \<Rightarrow> mat" where
  "mat_mult A B = map (\<lambda>r. map (\<lambda>c. dot r (map (\<lambda>row. row ! c) B)) [0..<length B]) A"

definition symmetric_mat :: "mat \<Rightarrow> bool" where
  "symmetric_mat A \<longleftrightarrow> (\<forall>p < length A. \<forall>q < length A. A ! p ! q = A ! q ! p)"

definition quad_form :: "mat \<Rightarrow> vec \<Rightarrow> real" where
  "quad_form A x = dot x (mat_vec A x)"

definition upper_triangular :: "mat \<Rightarrow> bool" where
  "upper_triangular U \<longleftrightarrow> (\<forall>i < length U. \<forall>k < length U. k < i \<longrightarrow> U ! i ! k = 0)"

text \<open>The bodies of the two substitution loops, named for the proofs.\<close>

definition fwd_step :: "mat \<Rightarrow> vec \<Rightarrow> nat \<Rightarrow> vec \<Rightarrow> vec" where
  "fwd_step L b i y = y[i := (b ! i - dot (take i (L ! i)) (take i y)) / L ! i ! i]"

definition bwd_step :: "mat \<Rightarrow> vec \<Rightarrow> nat \<Rightarrow> vec \<Rightarrow> vec" where
  "bwd_step U y i x = x[i := (y ! i - dot (drop (i + 1) (U ! i)) (drop (i + 1) x)) / U ! i ! i]"

text \<open>
  The two loop bodies of the assembler have one shape: a boundary point gets a unit
  diagonal and its boundary value, an interior point its diagonal, \<open>-1\<close> at its neighbours
  and its source value.  \<open>asm_step\<close> is that shape over the linear index; the values at
  a grid point are \<open>u0_2d\<close>, \<open>src_2d\<close> (resp. \<open>u0_3d\<close>, \<open>src_3d\<close>).
\<close>

definition asm_step ::
    "(nat \<Rightarrow> bool) \<Rightarrow> (nat \<Rightarrow> nat list) \<Rightarrow> real \<Rightarrow> (nat \<Rightarrow> real) \<Rightarrow> (nat \<Rightarrow> real)
      \<Rightarrow> nat \<Rightarrow> asm_state \<Rightarrow> asm_state" where
  "asm_step bd nb dg u g p s =
     (case s of (A, f_vector, boundary_nodes) \<Rightarrow>
        if bd p
        then (mat_set A p p 1, f_vector[p := u p], boundary_nodes @ [p])
        else (fold (\<lambda>q A. mat_set A p q (- 1)) (nb p) (mat_set A p p dg),
              f_vector[p := g p], boundary_nodes))"

definition u0_2d :: "nat \<Rightarrow> nat \<Rightarrow> real" where
  "u0_2d n p = sin ((real (p div n) + 1) * spacing_of n * ((real (p mod n) + 1) * spacing_of n))"

definition src_2d :: "nat \<Rightarrow> nat \<Rightarrow> real" where
  "src_2d n p = f_2d ((real (p div n) + 1) * spacing_of n) ((real (p mod n) + 1) * spacing_of n)
                * (spacing_of n)\<^sup>2"

definition u0_3d :: "nat \<Rightarrow> nat \<Rightarrow> real" where
  "u0_3d n p = sin ((real (p div (n * n)) + 1) * spacing_of n
                  * ((real (p mod (n * n) div n) + 1) * spacing_of n)
                  * ((real (p mod n) + 1) * spacing_of n))"

definition src_3d :: "nat \<Rightarrow> nat \<Rightarrow> real" where
  "src_3d n p = f_3d ((real (p div (n * n)) + 1) * spacing_of n)
                     ((real (p mod (n * n) div n) + 1) * spacing_of n)
                     ((real (p mod n) + 1) * spacing_of n)
                * (spacing_of n)\<^sup>2"

text \<open>The matrix entries after the first pass, and after the zeroing pass.\<close>

definition first_entry :: "(nat \<Rightarrow> bool) \<Rightarrow> (nat \<Rightarrow> nat list) \<Rightarrow> real \<Rightarrow> nat \<Rightarrow> nat \<Rightarrow> real" where
  "first_entry bd nb dg r c =
     (if bd r then (if c = r then 1 else 0)
      else if c \<in> set (nb r) then - 1 else if c = r then dg else 0)"

definition final_entry :: "(nat \<Rightarrow> bool) \<Rightarrow> (nat \<Rightarrow> nat list) \<Rightarrow> real \<Rightarrow> nat \<Rightarrow> nat \<Rightarrow> real" where
  "final_entry bd nb dg r c =
     (if bd r \<or> bd c then (if r = c then 1 else 0)
      else if c \<in> set (nb r) then - 1 else if c = r then dg else 0)"

text \<open>
  For positive definiteness: the second-difference form along one grid line, and a vector
  with its boundary entries masked out.
\<close>

definition line_form :: "nat \<Rightarrow> (nat \<Rightarrow> real) \<Rightarrow> real" where
  "line_form n a = (\<Sum>j<n. a j * (2 * a j - a (j - 1) - a (Suc j)))"

definition masked :: "(nat \<Rightarrow> bool) \<Rightarrow> vec \<Rightarrow> nat \<Rightarrow> real" where
  "masked bd x p = (if bd p then 0 else x ! p)"

definition positive_definite :: "mat \<Rightarrow> bool" where
  "positive_definite A \<longleftrightarrow>
     (\<forall>x. length x = length A \<and> (\<exists>r<length A. x ! r \<noteq> 0) \<longrightarrow> 0 < quad_form A x)"

definition eigenpair :: "mat \<Rightarrow> real \<Rightarrow> vec \<Rightarrow> bool" where
  \<comment> \<open>\<open>v\<close> is a non-zero vector with \<open>A v = lam v\<close>\<close>
  "eigenpair A lam v \<longleftrightarrow>
     length v = length A \<and> (\<exists>r<length A. v ! r \<noteq> 0) \<and> mat_vec A v = map (\<lambda>t. lam * t) v"

subsection \<open>The instance \<open>Problem(4, 2)\<close> and the experiment line of \<open>E4\<close>\<close>

text \<open>
  \<open>fill_in_ratio\<close> as the specification words it: the non-zeros of the factor over the
  non-zeros of the matrix it was computed from, for either ordering.  It is compared with
  \<open>fill_in_ratio\<close> above, which follows the source.
\<close>

definition spec_fill_in_ratio :: "problem \<Rightarrow> bool \<Rightarrow> error + py_float" where
  "spec_fill_in_ratio self reorder_flag =
     (let (nnz_A, nnz_C) =
            (if reorder_flag
             then (nnz (reordered_matrix self), count_nonzero (cholesky_factor_reorderd self))
             else (nnz (matrix self), count_nonzero (cholesky_factor self)))
      in if nnz_A = 0 then Inr (if nnz_C = 0 then NaN else Infinity)
         else Inr (Finite (real nnz_C / real nnz_A)))"

text \<open>
  The 16 unknowns of \<open>n = 4\<close>, \<open>D = 2\<close>: twelve boundary points and the interior points
  5, 6, 9 and 10, which form a cycle.  \<open>rcm_n4\<close> is the permutation array taken for the
  library's answer on this matrix; it puts the cycle first and the boundary unknowns after
  it.  The value of \<open>fill_in_ratio\<close> without reordering does not depend on it.
\<close>

definition rcm_n4 :: "mat \<Rightarrow> nat list" where
  "rcm_n4 A = [9, 10, 5, 6, 12, 13, 15, 14, 8, 11, 7, 4, 3, 2, 1, 0]"

definition matrix_n4 :: mat where
  "matrix_n4 =
     [[1, 0, 0, 0, 0, 0, 0, 0, 0, 0, 0, 0, 0, 0, 0, 0],
     [0, 1, 0, 0, 0, 0, 0, 0, 0, 0, 0, 0, 0, 0, 0, 0],
     [0, 0, 1, 0, 0, 0, 0, 0, 0, 0, 0, 0, 0, 0, 0, 0],
     [0, 0, 0, 1, 0, 0, 0, 0, 0, 0, 0, 0, 0, 0, 0, 0],
     [0, 0, 0, 0, 1, 0, 0, 0, 0, 0, 0, 0, 0, 0, 0, 0],
     [0, 0, 0, 0, 0, 4, - 1, 0, 0, - 1, 0, 0, 0, 0, 0, 0],
     [0, 0, 0, 0, 0, - 1, 4, 0, 0, 0, - 1, 0, 0, 0, 0, 0],
     [0, 0, 0, 0, 0, 0, 0, 1, 0, 0, 0, 0, 0, 0, 0, 0],
     [0, 0, 0, 0, 0, 0, 0, 0, 1, 0, 0, 0, 0, 0, 0, 0],
     [0, 0, 0, 0, 0, - 1, 0, 0, 0, 4, - 1, 0, 0, 0, 0, 0],
     [0, 0, 0, 0, 0, 0, - 1, 0, 0, - 1, 4, 0, 0, 0, 0, 0],
     [0, 0, 0, 0, 0, 0, 0, 0, 0, 0, 0, 1, 0, 0, 0, 0],
     [0, 0, 0, 0, 0, 0, 0, 0, 0, 0, 0, 0, 1, 0, 0, 0],
     [0, 0, 0, 0, 0, 0, 0, 0, 0, 0, 0, 0, 0, 1, 0, 0],
     [0, 0, 0, 0, 0, 0, 0, 0, 0, 0, 0, 0, 0, 0, 1, 0],
     [0, 0, 0, 0, 0, 0, 0, 0, 0, 0, 0, 0, 0, 0, 0, 1]]"

definition reordered_n4 :: mat where
  "reordered_n4 =
     [[4, - 1, - 1, 0, 0, 0, 0, 0, 0, 0, 0, 0, 0, 0, 0, 0],
     [- 1, 4, 0, - 1, 0, 0, 0, 0, 0, 0, 0, 0, 0, 0, 0, 0],
     [- 1, 0, 4, - 1, 0, 0, 0, 0, 0, 0, 0, 0, 0, 0, 0, 0],
     [0, - 1, - 1, 4, 0, 0, 0, 0, 0, 0, 0, 0, 0, 0, 0, 0],
     [0, 0, 0, 0, 1, 0, 0, 0, 0, 0, 0, 0, 0, 0, 0, 0],
     [0, 0, 0, 0, 0, 1, 0, 0, 0, 0, 0, 0, 0, 0, 0, 0],
     [0, 0, 0, 0, 0, 0, 1, 0, 0, 0, 0, 0, 0, 0, 0, 0],
     [0, 0, 0, 0, 0, 0, 0, 1, 0, 0, 0, 0, 0, 0, 0, 0],
     [0, 0, 0, 0, 0, 0, 0, 0, 1, 0, 0, 0, 0, 0, 0, 0],
     [0, 0, 0, 0, 0, 0, 0, 0, 0, 1, 0, 0, 0, 0, 0, 0],
     [0, 0, 0, 0, 0, 0, 0, 0, 0, 0, 1, 0, 0, 0, 0, 0],
     [0, 0, 0, 0, 0, 0, 0, 0, 0, 0, 0, 1, 0, 0, 0, 0],
     [0, 0, 0, 0, 0, 0, 0, 0, 0, 0, 0, 0, 1, 0, 0, 0],
     [0, 0, 0, 0, 0, 0, 0, 0, 0, 0, 0, 0, 0, 1, 0, 0],
     [0, 0, 0, 0, 0, 0, 0, 0, 0, 0, 0, 0, 0, 0, 1, 0],
     [0, 0, 0, 0, 0, 0, 0, 0, 0, 0, 0, 0, 0, 0, 0, 1]]"

definition factor_n4 :: mat where
  "factor_n4 =
     [[1, 0, 0, 0, 0, 0, 0, 0, 0, 0, 0, 0, 0, 0, 0, 0],
     [0, 1, 0, 0, 0, 0, 0, 0, 0, 0, 0, 0, 0, 0, 0, 0],
     [0, 0, 1, 0, 0, 0, 0, 0, 0, 0, 0, 0, 0, 0, 0, 0],
     [0, 0, 0, 1, 0, 0, 0, 0, 0, 0, 0, 0, 0, 0, 0, 0],
     [0, 0, 0, 0, 1, 0, 0, 0, 0, 0, 0, 0, 0, 0, 0, 0],
     [0, 0, 0, 0, 0, 2, 0, 0, 0, 0, 0, 0, 0, 0, 0, 0],
     [0, 0, 0, 0, 0, - (1 / 2), sqrt (15 / 4), 0, 0, 0, 0, 0, 0, 0, 0, 0],
     [0, 0, 0, 0, 0, 0, 0, 1, 0, 0, 0, 0, 0, 0, 0, 0],
     [0, 0, 0, 0, 0, 0, 0, 0, 1, 0, 0, 0, 0, 0, 0, 0],
     [0, 0, 0, 0, 0, - (1 / 2), - (1 / (4 * sqrt (15 / 4))), 0, 0, sqrt (56 / 15), 0, 0, 0, 0, 0, 0],
     [0, 0, 0, 0, 0, 0, - (1 / sqrt (15 / 4)), 0, 0, - (16 / 15) / sqrt (56 / 15), sqrt (24 / 7), 0, 0, 0, 0, 0],
     [0, 0, 0, 0, 0, 0, 0, 0, 0, 0, 0, 1, 0, 0, 0, 0],
     [0, 0, 0, 0, 0, 0, 0, 0, 0, 0, 0, 0, 1, 0, 0, 0],
     [0, 0, 0, 0, 0, 0, 0, 0, 0, 0, 0, 0, 0, 1, 0, 0],
     [0, 0, 0, 0, 0, 0, 0, 0, 0, 0, 0, 0, 0, 0, 1, 0],
     [0, 0, 0, 0, 0, 0, 0, 0, 0, 0, 0, 0, 0, 0, 0, 1]]"

definition factor_reordered_n4 :: mat where
  "factor_reordered_n4 =
     [[2, 0, 0, 0, 0, 0, 0, 0, 0, 0, 0, 0, 0, 0, 0, 0],
     [- (1 / 2), sqrt (15 / 4), 0, 0, 0, 0, 0, 0, 0, 0, 0, 0, 0, 0, 0, 0],
     [- (1 / 2), - (1 / (4 * sqrt (15 / 4))), sqrt (56 / 15), 0, 0, 0, 0, 0, 0, 0, 0, 0, 0, 0, 0, 0],
     [0, - (1 / sqrt (15 / 4)), - (16 / 15) / sqrt (56 / 15), sqrt (24 / 7), 0, 0, 0, 0, 0, 0, 0, 0, 0, 0, 0, 0],
     [0, 0, 0, 0, 1, 0, 0, 0, 0, 0, 0, 0, 0, 0, 0, 0],
     [0, 0, 0, 0, 0, 1, 0, 0, 0, 0, 0, 0, 0, 0, 0, 0],
     [0, 0, 0, 0, 0, 0, 1, 0, 0, 0, 0, 0, 0, 0, 0, 0],
     [0, 0, 0, 0, 0, 0, 0, 1, 0, 0, 0, 0, 0, 0, 0, 0],
     [0, 0, 0, 0, 0, 0, 0, 0, 1, 0, 0, 0, 0, 0, 0, 0],
     [0, 0, 0, 0, 0, 0, 0, 0, 0, 1, 0, 0, 0, 0, 0, 0],
     [0, 0, 0, 0, 0, 0, 0, 0, 0, 0, 1, 0, 0, 0, 0, 0],
     [0, 0, 0, 0, 0, 0, 0, 0, 0, 0, 0, 1, 0, 0, 0, 0],
     [0, 0, 0, 0, 0, 0, 0, 0, 0, 0, 0, 0, 1, 0, 0, 0],
     [0, 0, 0, 0, 0, 0, 0, 0, 0, 0, 0, 0, 0, 1, 0, 0],
     [0, 0, 0, 0, 0, 0, 0, 0, 0, 0, 0, 0, 0, 0, 1, 0],
     [0, 0, 0, 0, 0, 0, 0, 0, 0, 0, 0, 0, 0, 0, 0, 1]]"

definition problem_n4 :: problem where
  "problem_n4 =
     \<lparr>n_elements = 4, dimension = 2, matrix = matrix_n4, rhs = snd (assemble_2d 4),
      reordered_matrix = reordered_n4, cholesky_factor = factor_n4,
      cholesky_factor_reorderd = factor_reordered_n4\<rparr>"

section \<open>Properties of the grid indexer\<close>

lemma lin2_div: "j < n \<Longrightarrow> (i * n + j) div n = (i::nat)" by simp
lemma lin2_mod: "j < n \<Longrightarrow> (i * n + j) mod n = (j::nat)" by simp

lemma pred_mult_add: "0 < i \<Longrightarrow> (i - 1) * n + (n::nat) = i * n"
  by (cases i) simp_all

lemma nb2_coords:
  assumes "j < n"
  shows "get_neighbors_2d (i * n + j) n =
      (if j > 0 then [i * n + (j - 1)] else [])
    @ (if j < n - 1 then [i * n + (j + 1)] else [])
    @ (if i > 0 then [(i - 1) * n + j] else [])
    @ (if i < n - 1 then [(i + 1) * n + j] else [])"
proof -
  have "0 < i \<Longrightarrow> i * n + j - n = (i - 1) * n + j"
    using pred_mult_add[of i n] by linarith
  moreover have "0 < j \<Longrightarrow> i * n + j - 1 = i * n + (j - 1)" by simp
  ultimately show ?thesis
    using assms unfolding get_neighbors_2d_def Let_def
    by (simp add: algebra_simps)
qed

lemma grid2_coords:
  assumes "j < n"
  shows "grid_neighbours_2d (i * n + j) n =
     {i' * n + j' | i' j'. i' < n \<and> j' < n \<and>
        ((dist1 i' i \<and> j' = j) \<or> (i' = i \<and> dist1 j' j))}"
  using assms unfolding grid_neighbours_2d_def by simp

lemma nb2_set_coords:
  assumes "i < n" "j < n"
  shows "set (get_neighbors_2d (i * n + j) n) = grid_neighbours_2d (i * n + j) n"
proof (rule set_eqI, rule iffI)
  fix q assume "q \<in> set (get_neighbors_2d (i * n + j) n)"
  then consider "j > 0" "q = i * n + (j - 1)" | "j < n - 1" "q = i * n + (j + 1)"
    | "i > 0" "q = (i - 1) * n + j" | "i < n - 1" "q = (i + 1) * n + j"
    unfolding nb2_coords[OF assms(2)] by (auto split: if_splits)
  then have "\<exists>i' j'. q = i' * n + j' \<and> i' < n \<and> j' < n \<and>
        ((dist1 i' i \<and> j' = j) \<or> (i' = i \<and> dist1 j' j))"
  proof cases
    case 1 then show ?thesis using assms
      by (intro exI[of _ i] exI[of _ "j - 1"]) (auto simp: dist1_def)
  next
    case 2 then show ?thesis using assms
      by (intro exI[of _ i] exI[of _ "j + 1"]) (auto simp: dist1_def)
  next
    case 3 then show ?thesis using assms
      by (intro exI[of _ "i - 1"] exI[of _ j]) (auto simp: dist1_def)
  next
    case 4 then show ?thesis using assms
      by (intro exI[of _ "i + 1"] exI[of _ j]) (auto simp: dist1_def)
  qed
  then show "q \<in> grid_neighbours_2d (i * n + j) n"
    unfolding grid2_coords[OF assms(2)] by blast
next
  fix q assume "q \<in> grid_neighbours_2d (i * n + j) n"
  then obtain i' j' where q: "q = i' * n + j'" "i' < n" "j' < n"
    and d: "(dist1 i' i \<and> j' = j) \<or> (i' = i \<and> dist1 j' j)"
    unfolding grid2_coords[OF assms(2)] by blast
  from d q assms show "q \<in> set (get_neighbors_2d (i * n + j) n)"
    unfolding nb2_coords[OF assms(2)] dist1_def
    by (auto simp: algebra_simps)
qed

lemma nb2_set:
  assumes "p < n * n"
  shows "set (get_neighbors_2d p n) = grid_neighbours_2d p n"
proof -
  have n: "0 < n" using assms by (cases n) simp_all
  have "p div n < n" using assms by (simp add: less_mult_imp_div_less)
  moreover have "p mod n < n" using n by simp
  ultimately show ?thesis
    using nb2_set_coords[of "p div n" n "p mod n"] by simp
qed


lemma lin3_flat: "i * n * n + j * n + k = (i * n + j) * n + (k::nat)"
  by (simp add: algebra_simps)

lemma lin3_div:
  assumes "j < n" "k < n" shows "(i * n * n + j * n + k) div (n * n) = (i::nat)"
proof -
  have "((i * n + j) * n + k) div (n * n) = ((i * n + j) * n + k) div n div n"
    by (rule div_mult2_eq)
  also have "\<dots> = (i * n + j) div n" using assms by simp
  also have "\<dots> = i" using assms by simp
  finally show ?thesis unfolding lin3_flat .
qed

lemma lin3_mod2:
  assumes "j < n" "k < n" shows "(i * n * n + j * n + k) mod (n * n) = j * n + (k::nat)"
proof -
  have "((i * n + j) * n + k) mod (n * n)
        = n * (((i * n + j) * n + k) div n mod n) + ((i * n + j) * n + k) mod n"
    by (rule mod_mult2_eq)
  also have "((i * n + j) * n + k) div n = i * n + j" using assms by simp
  also have "((i * n + j) * n + k) mod n = k" using assms by simp
  also have "(i * n + j) mod n = j" using assms by simp
  finally show ?thesis unfolding lin3_flat by (simp add: mult.commute)
qed

lemma lin3_mod:
  assumes "k < n" shows "(i * n * n + j * n + k) mod n = (k::nat)"
  unfolding lin3_flat using assms by simp

lemma lin3_midx:
  assumes "j < n" "k < n" shows "((i * n * n + j * n + k) mod (n * n)) div n = (j::nat)"
  unfolding lin3_mod2[OF assms] using assms by simp

lemma nb3_coords:
  assumes "j < n" "k < n"
  shows "get_neighbors_3d (i * n * n + j * n + k) n =
      (if k > 0 then [i * n * n + j * n + (k - 1)] else [])
    @ (if k < n - 1 then [i * n * n + j * n + (k + 1)] else [])
    @ (if j > 0 then [i * n * n + (j - 1) * n + k] else [])
    @ (if j < n - 1 then [i * n * n + (j + 1) * n + k] else [])
    @ (if i > 0 then [(i - 1) * n * n + j * n + k] else [])
    @ (if i < n - 1 then [(i + 1) * n * n + j * n + k] else [])"
proof -
  let ?p = "i * n * n + j * n + k"
  have a: "0 < k \<Longrightarrow> ?p - 1 = i * n * n + j * n + (k - 1)" by simp
  have b: "0 < j \<Longrightarrow> ?p - n = i * n * n + (j - 1) * n + k"
    using pred_mult_add[of j n] by linarith
  have "0 < i \<Longrightarrow> (i - 1) * (n * n) + n * n = i * (n * n)" by (rule pred_mult_add)
  then have c: "0 < i \<Longrightarrow> ?p - n * n = (i - 1) * n * n + j * n + k"
    unfolding mult.assoc by linarith
  have d: "?p + n * n = (i + 1) * n * n + j * n + k"
    by (simp add: algebra_simps)
  have e: "?p + n = i * n * n + (j + 1) * n + k"
    by (simp add: algebra_simps)
  have f: "?p + 1 = i * n * n + j * n + (k + 1)" by simp
  have "get_neighbors_3d ?p n =
      (if k > 0 then [?p - 1] else [])
    @ (if k < n - 1 then [?p + 1] else [])
    @ (if j > 0 then [?p - n] else [])
    @ (if j < n - 1 then [?p + n] else [])
    @ (if i > 0 then [?p - n * n] else [])
    @ (if i < n - 1 then [?p + n * n] else [])"
    unfolding get_neighbors_3d_def Let_def lin3_div[OF assms] lin3_midx[OF assms]
      lin3_mod[OF assms(2)] ..
  also have "\<dots> = (if k > 0 then [i * n * n + j * n + (k - 1)] else [])
    @ (if k < n - 1 then [i * n * n + j * n + (k + 1)] else [])
    @ (if j > 0 then [i * n * n + (j - 1) * n + k] else [])
    @ (if j < n - 1 then [i * n * n + (j + 1) * n + k] else [])
    @ (if i > 0 then [(i - 1) * n * n + j * n + k] else [])
    @ (if i < n - 1 then [(i + 1) * n * n + j * n + k] else [])"
    unfolding d e f using a b c by presburger
  finally show ?thesis .
qed

lemma grid3_coords:
  assumes "j < n" "k < n"
  shows "grid_neighbours_3d (i * n * n + j * n + k) n =
     {i' * n * n + j' * n + k' | i' j' k'. i' < n \<and> j' < n \<and> k' < n \<and>
        ((dist1 i' i \<and> j' = j \<and> k' = k)
       \<or> (i' = i \<and> dist1 j' j \<and> k' = k)
       \<or> (i' = i \<and> j' = j \<and> dist1 k' k))}"
  unfolding grid_neighbours_3d_def lin3_div[OF assms] lin3_midx[OF assms]
      lin3_mod[OF assms(2)] ..

lemma nb3_set_coords:
  assumes "i < n" "j < n" "k < n"
  shows "set (get_neighbors_3d (i * n * n + j * n + k) n)
         = grid_neighbours_3d (i * n * n + j * n + k) n"
proof (rule set_eqI, rule iffI)
  fix q assume "q \<in> set (get_neighbors_3d (i * n * n + j * n + k) n)"
  then consider "k > 0" "q = i * n * n + j * n + (k - 1)"
    | "k < n - 1" "q = i * n * n + j * n + (k + 1)"
    | "j > 0" "q = i * n * n + (j - 1) * n + k"
    | "j < n - 1" "q = i * n * n + (j + 1) * n + k"
    | "i > 0" "q = (i - 1) * n * n + j * n + k"
    | "i < n - 1" "q = (i + 1) * n * n + j * n + k"
    unfolding nb3_coords[OF assms(2,3)] by (auto split: if_splits)
  then have "\<exists>i' j' k'. q = i' * n * n + j' * n + k' \<and> i' < n \<and> j' < n \<and> k' < n \<and>
        ((dist1 i' i \<and> j' = j \<and> k' = k)
       \<or> (i' = i \<and> dist1 j' j \<and> k' = k)
       \<or> (i' = i \<and> j' = j \<and> dist1 k' k))"
  proof cases
    case 1 then show ?thesis using assms
      by (intro exI[of _ i] exI[of _ j] exI[of _ "k - 1"]) (auto simp: dist1_def)
  next
    case 2 then show ?thesis using assms
      by (intro exI[of _ i] exI[of _ j] exI[of _ "k + 1"]) (auto simp: dist1_def)
  next
    case 3 then show ?thesis using assms
      by (intro exI[of _ i] exI[of _ "j - 1"] exI[of _ k]) (auto simp: dist1_def)
  next
    case 4 then show ?thesis using assms
      by (intro exI[of _ i] exI[of _ "j + 1"] exI[of _ k]) (auto simp: dist1_def)
  next
    case 5 then show ?thesis using assms
      by (intro exI[of _ "i - 1"] exI[of _ j] exI[of _ k]) (auto simp: dist1_def)
  next
    case 6 then show ?thesis using assms
      by (intro exI[of _ "i + 1"] exI[of _ j] exI[of _ k]) (auto simp: dist1_def)
  qed
  then show "q \<in> grid_neighbours_3d (i * n * n + j * n + k) n"
    unfolding grid3_coords[OF assms(2,3)] by blast
next
  fix q assume "q \<in> grid_neighbours_3d (i * n * n + j * n + k) n"
  then obtain i' j' k' where q: "q = i' * n * n + j' * n + k'" "i' < n" "j' < n" "k' < n"
    and d: "(dist1 i' i \<and> j' = j \<and> k' = k)
       \<or> (i' = i \<and> dist1 j' j \<and> k' = k)
       \<or> (i' = i \<and> j' = j \<and> dist1 k' k)"
    unfolding grid3_coords[OF assms(2,3)] by blast
  from d consider
      (k1) "i' = i" "j' = j" "k = Suc k'" | (k2) "i' = i" "j' = j" "k' = Suc k"
    | (j1) "i' = i" "j = Suc j'" "k' = k" | (j2) "i' = i" "j' = Suc j" "k' = k"
    | (i1) "i = Suc i'" "j' = j" "k' = k" | (i2) "i' = Suc i" "j' = j" "k' = k"
    unfolding dist1_def by blast
  then show "q \<in> set (get_neighbors_3d (i * n * n + j * n + k) n)"
  proof cases
    case k1 then show ?thesis unfolding nb3_coords[OF assms(2,3)] q(1) by simp
  next
    case k2 then have "k < n - 1" using q(4) by simp
    with k2 show ?thesis unfolding nb3_coords[OF assms(2,3)] q(1) by simp
  next
    case j1 then show ?thesis unfolding nb3_coords[OF assms(2,3)] q(1) by simp
  next
    case j2 then have "j < n - 1" using q(3) by simp
    with j2 show ?thesis unfolding nb3_coords[OF assms(2,3)] q(1) by simp
  next
    case i1 then show ?thesis unfolding nb3_coords[OF assms(2,3)] q(1) by simp
  next
    case i2 then have "i < n - 1" using q(2) by simp
    with i2 show ?thesis unfolding nb3_coords[OF assms(2,3)] q(1) by simp
  qed
qed

lemma decomp3: "p = (p div (n * n)) * n * n + ((p mod (n * n)) div n) * n + p mod (n::nat)"
proof -
  have "p mod (n * n) mod n = p mod n" by (simp add: mod_mod_cancel)
  then have "(p mod (n * n)) div n * n + p mod n = p mod (n * n)"
    by (metis div_mult_mod_eq)
  then show ?thesis
    by (metis add.assoc div_mult_mod_eq mult.assoc)
qed

lemma nb3_set:
  assumes "p < n * n * n"
  shows "set (get_neighbors_3d p n) = grid_neighbours_3d p n"
proof -
  have n: "0 < n" using assms by (cases n) simp_all
  have "p div (n * n) < n" using assms by (simp add: less_mult_imp_div_less mult.commute)
  moreover have "(p mod (n * n)) div n < n" using n by (simp add: less_mult_imp_div_less)
  moreover have "p mod n < n" using n by simp
  ultimately show ?thesis
    using nb3_set_coords[of "p div (n * n)" n "(p mod (n * n)) div n" "p mod n"]
      decomp3[of p n] by simp
qed

lemma distinct_guarded4:
  fixes p n :: nat
  assumes "a \<Longrightarrow> 1 \<le> p \<and> 2 \<le> n" "b \<Longrightarrow> 2 \<le> n" "c \<Longrightarrow> n \<le> p \<and> 2 \<le> n" "d \<Longrightarrow> 2 \<le> n"
  shows "distinct ((if a then [p - 1] else []) @ (if b then [p + 1] else [])
                 @ (if c then [p - n] else []) @ (if d then [p + n] else []))"
  using assms by (cases a; cases b; cases c; cases d) auto

lemma div_pos_ge: "0 < p div n \<Longrightarrow> n \<le> (p::nat)"
  by (rule ccontr) simp

lemma mod_pos_ge2: "0 < n \<Longrightarrow> 0 < p mod n \<Longrightarrow> 2 \<le> (n::nat)"
  by (cases "n = 1") auto

lemma mod_pos_pos: "0 < p mod n \<Longrightarrow> 1 \<le> (p::nat)"
  by (cases "p = 0") auto

lemma less_pred_ge2: "(i::nat) < n - 1 \<Longrightarrow> 2 \<le> n"
  by simp

lemma pos_less_ge2: "0 < (i::nat) \<Longrightarrow> i < n \<Longrightarrow> 2 \<le> n"
  by simp

lemma nb2_distinct:
  assumes "p < n * n" shows "distinct (get_neighbors_2d p n)"
proof -
  have n: "0 < n" using assms by (cases n) simp_all
  have i: "p div n < n" using assms by (simp add: less_mult_imp_div_less)
  show ?thesis
    unfolding get_neighbors_2d_def Let_def
  proof (rule distinct_guarded4)
    assume "0 < p mod n"
    then show "1 \<le> p \<and> 2 \<le> n" using mod_pos_ge2[OF n] mod_pos_pos by blast
  next
    assume "p mod n < n - 1" then show "2 \<le> n" by (rule less_pred_ge2)
  next
    assume "0 < p div n"
    then show "n \<le> p \<and> 2 \<le> n" using div_pos_ge pos_less_ge2[OF _ i] by blast
  next
    assume "p div n < n - 1" then show "2 \<le> n" by (rule less_pred_ge2)
  qed
qed

lemma nb2_boundary_len:
  "on_boundary_2d p n \<Longrightarrow> length (get_neighbors_2d p n) < 4"
  unfolding on_boundary_2d_def get_neighbors_2d_def Let_def
  by (cases "p div n = 0"; cases "p div n = n - 1"; cases "p mod n = 0") simp_all

lemma distinct_guarded6:
  fixes p n m :: nat
  assumes "a \<Longrightarrow> 1 \<le> p" "c \<Longrightarrow> n \<le> p" "e \<Longrightarrow> m \<le> p" "2 \<le> n" "n < m"
  shows "distinct ((if a then [p - 1] else []) @ (if b then [p + 1] else [])
                 @ (if c then [p - n] else []) @ (if d then [p + n] else [])
                 @ (if e then [p - m] else []) @ (if f then [p + m] else []))"
  using assms by (cases a; cases b; cases c; cases d; cases e; cases f) auto

lemma nb3_distinct:
  assumes "p < n * n * n" shows "distinct (get_neighbors_3d p n)"
proof (cases "n = 1")
  case True
  then have "p = 0" using assms by simp
  then show ?thesis using True unfolding get_neighbors_3d_def Let_def by simp
next
  case False
  have n: "0 < n" using assms by (cases n) simp_all
  then have n2: "2 \<le> n" using False by simp
  then have "n * 1 < n * n" by (intro mult_strict_left_mono) simp_all
  then have nn: "n < n * n" by simp
  show ?thesis
    unfolding get_neighbors_3d_def Let_def
  proof (rule distinct_guarded6[OF _ _ _ n2 nn])
    assume "0 < p mod n" then show "1 \<le> p" by (rule mod_pos_pos)
  next
    assume "0 < p mod (n * n) div n"
    then have "n \<le> p mod (n * n)" by (rule div_pos_ge)
    also have "\<dots> \<le> p" by simp
    finally show "n \<le> p" .
  next
    assume "0 < p div (n * n)" then show "n * n \<le> p" by (rule div_pos_ge)
  qed
qed

lemma nb3_boundary_len:
  "on_boundary_3d p n \<Longrightarrow> length (get_neighbors_3d p n) < 6"
  unfolding on_boundary_3d_def get_neighbors_3d_def Let_def
  by (cases "p div (n * n) = 0"; cases "p div (n * n) = n - 1";
      cases "p mod (n * n) div n = 0"; cases "p mod (n * n) div n = n - 1";
      cases "p mod n = 0") simp_all

text \<open>
  C5.  For \<open>n \<ge> 1\<close> and a linear index \<open>p\<close> of the grid, \<open>get_neighbors_2d\<close> (resp.
  \<open>get_neighbors_3d\<close>) returns, without repetition, exactly the linear indices of the
  grid points that differ from \<open>p\<close> by one step in exactly one coordinate and lie inside
  the grid; a point with a coordinate at \<open>0\<close> or \<open>n - 1\<close> gets fewer than \<open>2D\<close> neighbours.
\<close>

theorem get_neighbors_exact:
  assumes "1 \<le> n"
  shows "(p < n * n \<longrightarrow>
            set (get_neighbors_2d p n) = grid_neighbours_2d p n
          \<and> distinct (get_neighbors_2d p n)
          \<and> (on_boundary_2d p n \<longrightarrow> length (get_neighbors_2d p n) < 2 * 2))
       \<and> (p < n * n * n \<longrightarrow>
            set (get_neighbors_3d p n) = grid_neighbours_3d p n
          \<and> distinct (get_neighbors_3d p n)
          \<and> (on_boundary_3d p n \<longrightarrow> length (get_neighbors_3d p n) < 2 * 3))"
  using nb2_set[of p n] nb2_distinct[of p n] nb2_boundary_len[of p n]
        nb3_set[of p n] nb3_distinct[of p n] nb3_boundary_len[of p n]
  by simp

theorem get_neighbors_exact_witness:
  "(1::nat) \<le> 3 \<and> (0::nat) < 3 * 3 \<and> (0::nat) < 3 * 3 * 3
   \<and> on_boundary_2d 0 3 \<and> on_boundary_3d 0 3
   \<and> get_neighbors_2d 0 3 = [1, 3] \<and> grid_neighbours_2d 0 3 = {1, 3}
   \<and> get_neighbors_3d 0 3 = [1, 3, 9] \<and> grid_neighbours_3d 0 3 = {1, 3, 9}
   \<and> length (get_neighbors_2d 0 3) < 2 * 2 \<and> length (get_neighbors_3d 0 3) < 2 * 3"
proof -
  have a: "get_neighbors_2d 0 3 = [1, 3]" by (simp add: get_neighbors_2d_def)
  have b: "get_neighbors_3d 0 3 = [1, 3, 9]" by (simp add: get_neighbors_3d_def)
  have c: "on_boundary_2d 0 3" "on_boundary_3d 0 3"
    by (simp_all add: on_boundary_2d_def on_boundary_3d_def)
  show ?thesis
    using get_neighbors_exact[of 3 0] a b c by simp
qed

section \<open>Unsupported dimensions\<close>

text \<open>
  C2, as stated, fails.  For the dimension 4 the assembler raises nothing: it prints
  \<open>Invalid dimension\<close> and returns the pair \<open>(None, None)\<close>.  The constructor hands that
  \<open>None\<close> on to \<open>reorder\<close>, and what ends the construction is the \<open>TypeError\<close> of the
  library call there, not a configuration error.
\<close>

theorem invalid_dimension_returns_none_n5:
  "build_matrix_and_rhs 5 4 = ([''Invalid dimension''], None, None)
   \<and> reorder rcm_n4 None = Inl TypeError
   \<and> Problem_init rcm_n4 5 4 = ([''Invalid dimension''], Inl TypeError)"
  by (simp add: Problem_init_def build_matrix_and_rhs_def reorder_def)

text \<open>
  C2, amended.  For \<open>n \<ge> 1\<close> and a dimension other than 2 and 3, \<open>build_matrix_and_rhs\<close>
  prints \<open>Invalid dimension\<close> and returns \<open>(None, None)\<close> without raising; constructing
  the problem then yields no object, because \<open>reorder\<close> fails on the \<open>None\<close> matrix with
  the library's \<open>TypeError\<close>.
\<close>

theorem invalid_dimension_prints_and_returns_none:
  assumes "1 \<le> n" and "d \<noteq> 2" and "d \<noteq> 3"
  shows "build_matrix_and_rhs n d = ([''Invalid dimension''], None, None)
       \<and> Problem_init rcm n d = ([''Invalid dimension''], Inl TypeError)"
  using assms by (simp add: Problem_init_def build_matrix_and_rhs_def reorder_def)

theorem invalid_dimension_prints_and_returns_none_witness:
  "(1::nat) \<le> 3 \<and> (7::int) \<noteq> 2 \<and> (7::int) \<noteq> 3
   \<and> build_matrix_and_rhs 3 7 = ([''Invalid dimension''], None, None)
   \<and> fst (Problem_init rcm_n4 3 7) = [''Invalid dimension'']
   \<and> snd (Problem_init rcm_n4 3 7) = Inl TypeError"
  using invalid_dimension_prints_and_returns_none[of 3 7 rcm_n4] by simp

text \<open>
  C10.  On an object whose dimension field is neither 2 nor 3, \<open>exact_solution\<close> prints
  \<open>Invalid dimension\<close> and returns \<open>None\<close>; it raises nothing.
\<close>

theorem exact_solution_invalid_dimension:
  assumes "dimension self \<noteq> 2" and "dimension self \<noteq> 3"
  shows "exact_solution self n = ([''Invalid dimension''], None)"
  using assms by (simp add: exact_solution_def)

theorem exact_solution_invalid_dimension_witness:
  "dimension \<lparr>n_elements = 3, dimension = 5, matrix = [], rhs = [], reordered_matrix = [],
              cholesky_factor = [], cholesky_factor_reorderd = []\<rparr> \<noteq> 2
   \<and> dimension \<lparr>n_elements = 3, dimension = 5, matrix = [], rhs = [], reordered_matrix = [],
              cholesky_factor = [], cholesky_factor_reorderd = []\<rparr> \<noteq> 3
   \<and> exact_solution \<lparr>n_elements = 3, dimension = 5, matrix = [], rhs = [],
              reordered_matrix = [], cholesky_factor = [], cholesky_factor_reorderd = []\<rparr> 3
       = ([''Invalid dimension''], None)"
  using exact_solution_invalid_dimension[of "\<lparr>n_elements = 3, dimension = 5, matrix = [],
      rhs = [], reordered_matrix = [], cholesky_factor = [], cholesky_factor_reorderd = []\<rparr>" 3]
  by simp

section \<open>Triangular solves\<close>

lemma dot_sum: "length u = length v \<Longrightarrow> dot u v = (\<Sum>i<length u. u ! i * v ! i)"
proof -
  assume l: "length u = length v"
  have "dot u v = (\<Sum>i = 0..<length (map2 (*) u v). map2 (*) u v ! i)"
    unfolding dot_def by (rule sum_list_sum_nth)
  also have "\<dots> = (\<Sum>i = 0..<length u. u ! i * v ! i)"
    using l by (intro sum.cong) simp_all
  finally show ?thesis by (simp add: atLeast0LessThan)
qed

lemma dot_take:
  assumes "i \<le> length u" "i \<le> length v"
  shows "dot (take i u) (take i v) = (\<Sum>j<i. u ! j * v ! j)"
proof -
  have "dot (take i u) (take i v) = (\<Sum>j<length (take i u). take i u ! j * take i v ! j)"
    using assms by (intro dot_sum) simp
  also have "\<dots> = (\<Sum>j<i. u ! j * v ! j)"
    using assms by (intro sum.cong) (simp_all add: min_absorb2)
  finally show ?thesis .
qed

lemma dot_drop:
  assumes "length u = n" "length v = n"
  shows "dot (drop i u) (drop i v) = (\<Sum>j = i..<n. u ! j * v ! j)"
proof (cases "i \<le> n")
  case True
  have "dot (drop i u) (drop i v) = (\<Sum>j<length (drop i u). drop i u ! j * drop i v ! j)"
    using assms by (intro dot_sum) simp
  also have "\<dots> = (\<Sum>j<n - i. u ! (i + j) * v ! (i + j))"
    using assms True by (intro sum.cong) simp_all
  also have "\<dots> = (\<Sum>j = i..<n. u ! j * v ! j)"
    using True sum.shift_bounds_nat_ivl[of "\<lambda>j. u ! j * v ! j" 0 i "n - i"]
    by (simp add: atLeast0LessThan add.commute)
  finally show ?thesis .
next
  case False
  then show ?thesis using assms by (simp add: dot_def)
qed

lemma square_mat_row: "square_mat N A \<Longrightarrow> i < N \<Longrightarrow> length (A ! i) = N"
  by (simp add: square_mat_def)

lemma square_mat_length: "square_mat N A \<Longrightarrow> length A = N"
  by (simp add: square_mat_def)

lemma mat_vec_nth:
  assumes "square_mat N A" "length x = N" "i < N"
  shows "mat_vec A x ! i = (\<Sum>j<N. A ! i ! j * x ! j)"
  using assms dot_sum[of "A ! i" x]
  by (simp add: mat_vec_def square_mat_row square_mat_length)

lemma length_mat_vec: "length (mat_vec A x) = length A"
  by (simp add: mat_vec_def)

lemma sum_split3:
  fixes f :: "nat \<Rightarrow> real"
  assumes "i < N"
  shows "(\<Sum>j<N. f j) = (\<Sum>j<i. f j) + f i + (\<Sum>j = Suc i..<N. f j)"
proof -
  have "{..<N} = {..<Suc i} \<union> {Suc i..<N}" using assms by auto
  then have "(\<Sum>j<N. f j) = sum f ({..<Suc i} \<union> {Suc i..<N})" by simp
  also have "\<dots> = sum f {..<Suc i} + sum f {Suc i..<N}"
    by (rule sum.union_disjoint) auto
  finally show ?thesis by simp
qed

text \<open>Forward substitution, step by step.\<close>

lemma forward_invariant:
  assumes sq: "square_mat N L" and nz: "nonzero_diagonal L" and lb: "length b = N"
    and k: "k \<le> N"
  shows "length (fold (fwd_step L b) [0..<k] (replicate N 0)) = N
       \<and> (\<forall>i<k. L ! i ! i * fold (fwd_step L b) [0..<k] (replicate N 0) ! i
                 + (\<Sum>j<i. L ! i ! j * fold (fwd_step L b) [0..<k] (replicate N 0) ! j) = b ! i)"
  using k
proof (induction k)
  case 0
  then show ?case by simp
next
  case (Suc k)
  let ?y = "fold (fwd_step L b) [0..<k] (replicate N 0)"
  let ?v = "(b ! k - dot (take k (L ! k)) (take k ?y)) / L ! k ! k"
  have kN: "k < N" using Suc.prems by simp
  have ih: "length ?y = N"
    "\<And>i. i < k \<Longrightarrow> L ! i ! i * ?y ! i + (\<Sum>j<i. L ! i ! j * ?y ! j) = b ! i"
    using Suc.IH kN by simp_all
  have step: "fold (fwd_step L b) [0..<Suc k] (replicate N 0) = ?y[k := ?v]"
    by (simp add: fwd_step_def)
  have d: "dot (take k (L ! k)) (take k ?y) = (\<Sum>j<k. L ! k ! j * ?y ! j)"
    using kN ih(1) square_mat_row[OF sq kN] by (intro dot_take) simp_all
  have nzk: "L ! k ! k \<noteq> 0" using nz kN sq by (simp add: nonzero_diagonal_def square_mat_def)
  show ?case unfolding step
  proof (intro conjI allI impI)
    show "length (?y[k := ?v]) = N" using ih(1) by simp
  next
    fix i assume "i < Suc k"
    show "L ! i ! i * ?y[k := ?v] ! i + (\<Sum>j<i. L ! i ! j * ?y[k := ?v] ! j) = b ! i"
    proof (cases "i = k")
      case True
      have "(\<Sum>j<k. L ! k ! j * ?y[k := ?v] ! j) = (\<Sum>j<k. L ! k ! j * ?y ! j)"
        by (intro sum.cong) simp_all
      moreover have "?y[k := ?v] ! k = ?v" using ih(1) kN by simp
      ultimately show ?thesis using True nzk d by simp
    next
      case False
      then have ik: "i < k" using \<open>i < Suc k\<close> by simp
      have "(\<Sum>j<i. L ! i ! j * ?y[k := ?v] ! j) = (\<Sum>j<i. L ! i ! j * ?y ! j)"
        using ik by (intro sum.cong) simp_all
      moreover have "?y[k := ?v] ! i = ?y ! i" using False by simp
      ultimately show ?thesis using ih(2)[OF ik] by simp
    qed
  qed
qed

lemma forward_substitution_fold:
  "forward_substitution L b = fold (fwd_step L b) [0..<length b] (replicate (length b) 0)"
  unfolding forward_substitution_def Let_def fwd_step_def ..

lemma forward_substitution_length:
  assumes "square_mat N L" "nonzero_diagonal L" "length b = N"
  shows "length (forward_substitution L b) = N"
  using forward_invariant[OF assms, of N] assms(3) by (simp add: forward_substitution_fold)

lemma forward_substitution_solves:
  assumes sq: "square_mat N L" and lt: "lower_triangular L" and nz: "nonzero_diagonal L"
    and lb: "length b = N"
  shows "mat_vec L (forward_substitution L b) = b"
proof (rule nth_equalityI)
  show "length (mat_vec L (forward_substitution L b)) = length b"
    using sq lb by (simp add: length_mat_vec square_mat_length)
next
  fix i assume "i < length (mat_vec L (forward_substitution L b))"
  then have i: "i < N" using sq by (simp add: length_mat_vec square_mat_length)
  let ?y = "forward_substitution L b"
  have ly: "length ?y = N" by (rule forward_substitution_length[OF sq nz lb])
  have eq: "L ! i ! i * ?y ! i + (\<Sum>j<i. L ! i ! j * ?y ! j) = b ! i"
    using forward_invariant[OF sq nz lb, of N] i lb by (simp add: forward_substitution_fold)
  have "(\<Sum>j<N. L ! i ! j * ?y ! j)
      = (\<Sum>j<i. L ! i ! j * ?y ! j) + L ! i ! i * ?y ! i + (\<Sum>j = Suc i..<N. L ! i ! j * ?y ! j)"
    by (rule sum_split3[OF i])
  moreover have "(\<Sum>j = Suc i..<N. L ! i ! j * ?y ! j) = 0"
    using lt sq i by (intro sum.neutral) (simp add: lower_triangular_def square_mat_def)
  ultimately show "mat_vec L ?y ! i = b ! i"
    using eq mat_vec_nth[OF sq ly i] by simp
qed


text \<open>Backward substitution, step by step.\<close>

lemma rev_upt_step: "m < n \<Longrightarrow> rev [m..<n] = rev [Suc m..<n] @ [m]"
  by (simp add: upt_conv_Cons)

lemma backward_invariant:
  assumes sq: "square_mat N U" and nz: "nonzero_diagonal U" and ly: "length y = N"
    and m: "m \<le> N"
  shows "length (fold (bwd_step U y) (rev [m..<N]) (replicate N 0)) = N
       \<and> (\<forall>i. m \<le> i \<and> i < N \<longrightarrow>
             U ! i ! i * fold (bwd_step U y) (rev [m..<N]) (replicate N 0) ! i
           + (\<Sum>j = Suc i..<N. U ! i ! j * fold (bwd_step U y) (rev [m..<N]) (replicate N 0) ! j)
           = y ! i)"
  using m
proof (induction m rule: inc_induct)
  case base
  then show ?case by simp
next
  case (step m)
  let ?x = "fold (bwd_step U y) (rev [Suc m..<N]) (replicate N 0)"
  let ?v = "(y ! m - dot (drop (m + 1) (U ! m)) (drop (m + 1) ?x)) / U ! m ! m"
  have mN: "m < N" using step.hyps by simp
  have ih: "length ?x = N"
    "\<And>i. Suc m \<le> i \<Longrightarrow> i < N \<Longrightarrow>
        U ! i ! i * ?x ! i + (\<Sum>j = Suc i..<N. U ! i ! j * ?x ! j) = y ! i"
    using step.IH by simp_all
  have st: "fold (bwd_step U y) (rev [m..<N]) (replicate N 0) = ?x[m := ?v]"
    by (simp add: rev_upt_step[OF mN] bwd_step_def)
  have d: "dot (drop (m + 1) (U ! m)) (drop (m + 1) ?x) = (\<Sum>j = Suc m..<N. U ! m ! j * ?x ! j)"
    using dot_drop[OF square_mat_row[OF sq mN] ih(1), of "m + 1"] by simp
  have nzm: "U ! m ! m \<noteq> 0" using nz mN sq by (simp add: nonzero_diagonal_def square_mat_def)
  show ?case unfolding st
  proof (intro conjI allI impI)
    show "length (?x[m := ?v]) = N" using ih(1) by simp
  next
    fix i assume a: "m \<le> i \<and> i < N"
    show "U ! i ! i * ?x[m := ?v] ! i + (\<Sum>j = Suc i..<N. U ! i ! j * ?x[m := ?v] ! j) = y ! i"
    proof (cases "i = m")
      case True
      have "(\<Sum>j = Suc m..<N. U ! m ! j * ?x[m := ?v] ! j) = (\<Sum>j = Suc m..<N. U ! m ! j * ?x ! j)"
        by (intro sum.cong) simp_all
      moreover have "?x[m := ?v] ! m = ?v" using ih(1) mN by simp
      ultimately show ?thesis using True nzm d by simp
    next
      case False
      then have im: "Suc m \<le> i" "i < N" using a by simp_all
      have "(\<Sum>j = Suc i..<N. U ! i ! j * ?x[m := ?v] ! j) = (\<Sum>j = Suc i..<N. U ! i ! j * ?x ! j)"
        using im by (intro sum.cong) simp_all
      moreover have "?x[m := ?v] ! i = ?x ! i" using False by simp
      ultimately show ?thesis using ih(2)[OF im] by simp
    qed
  qed
qed

lemma backward_substitution_fold:
  "backward_substitution U y = fold (bwd_step U y) (rev [0..<length y]) (replicate (length y) 0)"
  unfolding backward_substitution_def Let_def bwd_step_def ..

lemma backward_substitution_length:
  assumes "square_mat N U" "nonzero_diagonal U" "length y = N"
  shows "length (backward_substitution U y) = N"
  using backward_invariant[OF assms, of 0] assms(3) by (simp add: backward_substitution_fold)

lemma backward_substitution_solves:
  assumes sq: "square_mat N U" and ut: "upper_triangular U" and nz: "nonzero_diagonal U"
    and ly: "length y = N"
  shows "mat_vec U (backward_substitution U y) = y"
proof (rule nth_equalityI)
  show "length (mat_vec U (backward_substitution U y)) = length y"
    using sq ly by (simp add: length_mat_vec square_mat_length)
next
  fix i assume "i < length (mat_vec U (backward_substitution U y))"
  then have i: "i < N" using sq by (simp add: length_mat_vec square_mat_length)
  let ?x = "backward_substitution U y"
  have lx: "length ?x = N" by (rule backward_substitution_length[OF sq nz ly])
  have eq: "U ! i ! i * ?x ! i + (\<Sum>j = Suc i..<N. U ! i ! j * ?x ! j) = y ! i"
    using backward_invariant[OF sq nz ly, of 0] i ly by (simp add: backward_substitution_fold)
  have "(\<Sum>j<N. U ! i ! j * ?x ! j)
      = (\<Sum>j<i. U ! i ! j * ?x ! j) + U ! i ! i * ?x ! i + (\<Sum>j = Suc i..<N. U ! i ! j * ?x ! j)"
    by (rule sum_split3[OF i])
  moreover have "(\<Sum>j<i. U ! i ! j * ?x ! j) = 0"
    using ut sq i by (intro sum.neutral) (simp add: upper_triangular_def square_mat_def)
  ultimately show "mat_vec U ?x ! i = y ! i"
    using eq mat_vec_nth[OF sq lx i] by simp
qed

text \<open>The transpose of a lower-triangular factor.\<close>

lemma transpose_mat_nth:
  assumes "square_mat N L" "i < N" "j < N"
  shows "transpose_mat L ! i ! j = L ! j ! i"
  using assms by (simp add: transpose_mat_def square_mat_def)

lemma transpose_mat_square: "square_mat N L \<Longrightarrow> square_mat N (transpose_mat L)"
  by (auto simp: transpose_mat_def square_mat_def)

lemma transpose_mat_upper:
  assumes "square_mat N L" "lower_triangular L"
  shows "upper_triangular (transpose_mat L)"
  unfolding upper_triangular_def
proof (intro allI impI)
  fix i k assume a: "i < length (transpose_mat L)" "k < length (transpose_mat L)" "k < i"
  then have ik: "i < N" "k < N" using assms(1) by (simp_all add: transpose_mat_def square_mat_def)
  have "L ! k ! i = 0"
    using assms ik a(3) by (simp add: lower_triangular_def square_mat_def)
  then show "transpose_mat L ! i ! k = 0"
    using transpose_mat_nth[OF assms(1) ik] by simp
qed

lemma transpose_mat_diag:
  assumes "square_mat N L" "nonzero_diagonal L"
  shows "nonzero_diagonal (transpose_mat L)"
  unfolding nonzero_diagonal_def
proof (intro allI impI)
  fix i assume "i < length (transpose_mat L)"
  then have i: "i < N" using assms(1) by (simp add: transpose_mat_def square_mat_def)
  have "L ! i ! i \<noteq> 0"
    using assms i by (simp add: nonzero_diagonal_def square_mat_def)
  then show "transpose_mat L ! i ! i \<noteq> 0"
    using transpose_mat_nth[OF assms(1) i i] by simp
qed

lemma mat_mult_transpose_nth:
  assumes sq: "square_mat N L" and i: "i < N" and c: "c < N"
  shows "mat_mult L (transpose_mat L) ! i ! c = (\<Sum>j<N. L ! i ! j * L ! c ! j)"
proof -
  have lt: "length (transpose_mat L) = N" using sq by (simp add: transpose_mat_def square_mat_def)
  have "mat_mult L (transpose_mat L) ! i ! c
        = dot (L ! i) (map (\<lambda>row. row ! c) (transpose_mat L))"
    using sq i c lt by (simp add: mat_mult_def square_mat_def)
  also have "\<dots> = (\<Sum>j<N. L ! i ! j * map (\<lambda>row. row ! c) (transpose_mat L) ! j)"
    using dot_sum[of "L ! i" "map (\<lambda>row. row ! c) (transpose_mat L)"] lt
      square_mat_row[OF sq i] by simp
  also have "\<dots> = (\<Sum>j<N. L ! i ! j * L ! c ! j)"
    using lt c sq by (intro sum.cong) (simp_all add: transpose_mat_nth)
  finally show ?thesis .
qed

lemma factor_solves:
  assumes sq: "square_mat N L" and sqA: "square_mat N A"
    and A: "mat_mult L (transpose_mat L) = A"
    and lx: "length x = N"
    and y: "mat_vec (transpose_mat L) x = y" and b: "mat_vec L y = b"
  shows "mat_vec A x = b"
proof (rule nth_equalityI)
  show "length (mat_vec A x) = length b"
    using sq sqA b by (auto simp: length_mat_vec square_mat_length)
next
  fix i assume "i < length (mat_vec A x)"
  then have i: "i < N" using sqA by (simp add: length_mat_vec square_mat_length)
  have ly: "length y = N" using y sq by (auto simp: length_mat_vec transpose_mat_def square_mat_def)
  have yj: "\<And>j. j < N \<Longrightarrow> y ! j = (\<Sum>c<N. L ! c ! j * x ! c)"
  proof -
    fix j assume j: "j < N"
    have "y ! j = (\<Sum>c<N. transpose_mat L ! j ! c * x ! c)"
      using mat_vec_nth[OF transpose_mat_square[OF sq] lx j] y by simp
    also have "\<dots> = (\<Sum>c<N. L ! c ! j * x ! c)"
      using j sq by (intro sum.cong) (simp_all add: transpose_mat_nth)
    finally show "y ! j = (\<Sum>c<N. L ! c ! j * x ! c)" .
  qed
  have "mat_vec A x ! i = (\<Sum>c<N. A ! i ! c * x ! c)" by (rule mat_vec_nth[OF sqA lx i])
  also have "\<dots> = (\<Sum>c<N. (\<Sum>j<N. L ! i ! j * L ! c ! j) * x ! c)"
    using i sq A by (intro sum.cong) (simp_all add: mat_mult_transpose_nth[symmetric])
  also have "\<dots> = (\<Sum>c<N. \<Sum>j<N. L ! i ! j * (L ! c ! j * x ! c))"
    by (simp add: sum_distrib_right mult.assoc)
  also have "\<dots> = (\<Sum>j<N. \<Sum>c<N. L ! i ! j * (L ! c ! j * x ! c))"
    by (rule sum.swap)
  also have "\<dots> = (\<Sum>j<N. L ! i ! j * y ! j)"
    by (intro sum.cong) (simp_all add: yj sum_distrib_left)
  also have "\<dots> = mat_vec L y ! i" using mat_vec_nth[OF sq ly i] by simp
  finally show "mat_vec A x ! i = b ! i" using b by simp
qed

lemma mat_mult_square:
  assumes "square_mat N L" "square_mat N B"
  shows "square_mat N (mat_mult L B)"
  using assms by (auto simp: mat_mult_def square_mat_def)

text \<open>
  C4.  For an \<open>N \<times> N\<close> lower-triangular \<open>L\<close> with non-zero diagonal and a vector \<open>b\<close> of
  length \<open>N\<close>, in exact arithmetic \<open>forward_substitution L b\<close> is a \<open>y\<close> with \<open>L y = b\<close>,
  \<open>backward_substitution\<close> on the transpose and a \<open>y\<close> of length \<open>N\<close> is an \<open>x\<close> with
  \<open>L\<^sup>T x = y\<close>, and \<open>solve_cholesky\<close> returns an \<open>x\<close> with \<open>A x = rhs\<close> whenever the stored
  factor \<open>L\<close> satisfies \<open>L L\<^sup>T = A\<close>.
\<close>

theorem triangular_solves:
  assumes "square_mat N L" and "lower_triangular L" and "nonzero_diagonal L"
    and "length b = N"
  shows "mat_vec L (forward_substitution L b) = b
       \<and> (length y = N \<longrightarrow>
            mat_vec (transpose_mat L) (backward_substitution (transpose_mat L) y) = y)
       \<and> (cholesky_factor self = L \<and> rhs self = b
            \<and> mat_mult L (transpose_mat L) = matrix self
          \<longrightarrow> mat_vec (matrix self) (solve_cholesky self) = rhs self)"
proof (intro conjI impI)
  note tsq = transpose_mat_square[OF assms(1)]
  note tut = transpose_mat_upper[OF assms(1,2)]
  note tnz = transpose_mat_diag[OF assms(1,3)]
  show f: "mat_vec L (forward_substitution L b) = b"
    by (rule forward_substitution_solves[OF assms])
  show "mat_vec (transpose_mat L) (backward_substitution (transpose_mat L) y) = y"
    if "length y = N"
    by (rule backward_substitution_solves[OF tsq tut tnz that])
  show "mat_vec (matrix self) (solve_cholesky self) = rhs self"
    if h: "cholesky_factor self = L \<and> rhs self = b
            \<and> mat_mult L (transpose_mat L) = matrix self"
  proof -
    let ?y = "forward_substitution L b"
    let ?x = "backward_substitution (transpose_mat L) ?y"
    have ly: "length ?y = N" by (rule forward_substitution_length[OF assms(1,3,4)])
    have lx: "length ?x = N" by (rule backward_substitution_length[OF tsq tnz ly])
    have sqA: "square_mat N (matrix self)"
      using mat_mult_square[OF assms(1) tsq] h by simp
    have b: "mat_vec (transpose_mat L) ?x = ?y"
      by (rule backward_substitution_solves[OF tsq tut tnz ly])
    have "mat_vec (matrix self) ?x = b"
      using factor_solves[OF assms(1) sqA _ lx b f] h by simp
    then show ?thesis using h by (simp add: solve_cholesky_def)
  qed
qed

theorem triangular_solves_witness:
  "square_mat 2 [[2, 0], [1, 3]] \<and> lower_triangular [[2, 0], [1, 3]]
   \<and> nonzero_diagonal [[2, 0], [1, 3]] \<and> length [4, 11 :: real] = 2
   \<and> mat_mult [[2, 0], [1, 3]] (transpose_mat [[2, 0], [1, 3]]) = [[4, 2], [2, 10]]
   \<and> forward_substitution [[2, 0], [1, 3]] [4, 11] = [2, 3]
   \<and> mat_vec [[2, 0], [1, 3]] [2, 3] = [4, 11]
   \<and> backward_substitution (transpose_mat [[2, 0], [1, 3]]) [2, 3] = [1 / 2, 1]
   \<and> mat_vec (transpose_mat [[2, 0], [1, 3]]) [1 / 2, 1] = [2, 3]
   \<and> solve_cholesky \<lparr>n_elements = 1, dimension = 2, matrix = [[4, 2], [2, 10]], rhs = [4, 11],
         reordered_matrix = [[4, 2], [2, 10]], cholesky_factor = [[2, 0], [1, 3]],
         cholesky_factor_reorderd = [[2, 0], [1, 3]]\<rparr> = [1 / 2, 1]
   \<and> mat_vec [[4, 2], [2, 10]] [1 / 2, 1] = [4, 11]"
proof -
  have w1: "square_mat 2 [[2, 0], [1, 3]]" by (simp add: square_mat_def)
  have w2: "lower_triangular [[2, 0], [1, 3]]"
    by (simp add: lower_triangular_def less_Suc_eq numeral_2_eq_2)
  have w3: "nonzero_diagonal [[2, 0], [1, 3]]"
    by (simp add: nonzero_diagonal_def less_Suc_eq numeral_2_eq_2)
  have w4: "forward_substitution [[2, 0], [1, 3]] [4, 11] = [2, 3]"
    by (simp add: forward_substitution_def dot_def)
  have w5: "transpose_mat [[2, 0], [1, 3]] = [[2, 1], [0, 3::real]]"
    by (simp add: transpose_mat_def upt_rec)
  have w6: "backward_substitution [[2, 1], [0, 3]] [2, 3] = [1 / 2, 1]"
    by (simp add: backward_substitution_def dot_def)
  have w7: "mat_mult [[2, 0], [1, 3]] [[2, 1], [0, 3]] = [[4, 2], [2, 10]]"
    by (simp add: mat_mult_def dot_def upt_rec)
  have w8: "solve_cholesky \<lparr>n_elements = 1, dimension = 2, matrix = [[4, 2], [2, 10]], rhs = [4, 11],
         reordered_matrix = [[4, 2], [2, 10]], cholesky_factor = [[2, 0], [1, 3]],
         cholesky_factor_reorderd = [[2, 0], [1, 3]]\<rparr> = [1 / 2, 1]"
    by (simp add: solve_cholesky_def w4 w5 w6)
  show ?thesis
    using triangular_solves[OF w1 w2 w3, of "[4, 11]" "[2, 3]" "\<lparr>n_elements = 1, dimension = 2, matrix = [[4, 2], [2, 10]], rhs = [4, 11],
         reordered_matrix = [[4, 2], [2, 10]], cholesky_factor = [[2, 0], [1, 3]],
         cholesky_factor_reorderd = [[2, 0], [1, 3]]\<rparr>"]
      w1 w2 w3 w4 w5 w6 w7 w8
    by simp
qed

section \<open>The assembler, pass by pass\<close>

lemma fold_upt_Suc: "fold f [0..<Suc k] s = f k (fold f [0..<k] s)"
  by simp

lemma fold_row_flat:
  assumes "k \<le> w"
  shows "fold (\<lambda>j. g m j) [0..<k] t = fold (\<lambda>p. g (p div w) (p mod w)) [m * w..<m * w + k] t"
  using assms
proof (induction k)
  case 0
  then show ?case by simp
next
  case (Suc k)
  then have kw: "k < w" by simp
  have "[m * w..<m * w + Suc k] = [m * w..<m * w + k] @ [m * w + k]" by simp
  moreover have "(m * w + k) div w = m" "(m * w + k) mod w = k" using kw by simp_all
  ultimately show ?case using Suc.IH kw by simp
qed

lemma fold_grid2:
  "fold (\<lambda>i s. fold (\<lambda>j s. g i j s) [0..<w] s) [0..<m] s
   = fold (\<lambda>p. g (p div w) (p mod w)) [0..<m * w] s"
proof (induction m)
  case 0
  then show ?case by simp
next
  case (Suc m)
  have "[0..<Suc m * w] = [0..<m * w] @ [m * w..<m * w + w]"
    using upt_add_eq_append[of 0 "m * w" w] by (simp add: add.commute)
  then show ?case using Suc.IH fold_row_flat[of w w g m, OF le_refl] by simp
qed

lemma fold_grid3:
  "fold (\<lambda>i s. fold (\<lambda>j s. fold (\<lambda>k s. g i j k s) [0..<n] s) [0..<n] s) [0..<n] s
   = fold (\<lambda>p. g (p div (n * n)) (p mod (n * n) div n) (p mod n)) [0..<n * n * n] s"
proof -
  have "fold (\<lambda>i s. fold (\<lambda>j s. fold (\<lambda>k s. g i j k s) [0..<n] s) [0..<n] s) [0..<n] s
      = fold (\<lambda>i s. fold (\<lambda>q s. g i (q div n) (q mod n) s) [0..<n * n] s) [0..<n] s"
    by (simp add: fold_grid2[of "g i" n n for i])
  also have "\<dots> = fold (\<lambda>p. g (p div (n * n)) (p mod (n * n) div n) (p mod (n * n) mod n))
                       [0..<n * (n * n)] s"
    by (rule fold_grid2[of "\<lambda>i q. g i (q div n) (q mod n)" "n * n" n s])
  also have "\<dots> = fold (\<lambda>p. g (p div (n * n)) (p mod (n * n) div n) (p mod n)) [0..<n * n * n] s"
    by (simp add: mod_mod_cancel mult.assoc)
  finally show ?thesis .
qed

lemma cell_2d_step:
  "cell_2d n (p div n) (p mod n)
   = asm_step (\<lambda>p. on_boundary_2d p n) (\<lambda>p. get_neighbors_2d p n) 4 (u0_2d n) (src_2d n) p"
  by (rule ext) (simp add: cell_2d_def asm_step_def on_boundary_2d_def u0_2d_def src_2d_def
      Let_def split: prod.splits)

lemma cell_3d_step:
  "cell_3d n (p div (n * n)) (p mod (n * n) div n) (p mod n)
   = asm_step (\<lambda>p. on_boundary_3d p n) (\<lambda>p. get_neighbors_3d p n) 6 (u0_3d n) (src_3d n) p"
proof -
  have "p div (n * n) * n * n + p mod (n * n) div n * n + p mod n = p"
    using decomp3[of p n] by simp
  then show ?thesis
    by (intro ext) (simp add: cell_3d_def asm_step_def on_boundary_3d_def u0_3d_def src_3d_def
      Let_def split: prod.splits)
qed

lemma first_pass_2d_flat:
  "first_pass_2d n = fold (asm_step (\<lambda>p. on_boundary_2d p n) (\<lambda>p. get_neighbors_2d p n) 4
                             (u0_2d n) (src_2d n)) [0..<n * n]
                          (lil_matrix (n * n), replicate (n * n) 0, [])"
  unfolding first_pass_2d_def Let_def fold_grid2 cell_2d_step ..

lemma first_pass_3d_flat:
  "first_pass_3d n = fold (asm_step (\<lambda>p. on_boundary_3d p n) (\<lambda>p. get_neighbors_3d p n) 6
                             (u0_3d n) (src_3d n)) [0..<n * n * n]
                          (lil_matrix (n * n * n), replicate (n * n * n) 0, [])"
  unfolding first_pass_3d_def Let_def fold_grid3 cell_3d_step ..

lemma square_mat_nthI:
  assumes "length A = N" "\<And>r. r < N \<Longrightarrow> length (A ! r) = N"
  shows "square_mat N A"
  unfolding square_mat_def using assms by (auto simp: in_set_conv_nth)

lemma lil_matrix_square: "square_mat N (lil_matrix N)"
  by (simp add: lil_matrix_def square_mat_def)

lemma lil_matrix_nth: "r < N \<Longrightarrow> c < N \<Longrightarrow> lil_matrix N ! r ! c = 0"
  by (simp add: lil_matrix_def)

lemma mat_set_square: "square_mat N A \<Longrightarrow> square_mat N (mat_set A p q v)"
proof (rule square_mat_nthI)
  assume sq: "square_mat N A"
  show "length (mat_set A p q v) = N" using sq by (simp add: mat_set_def square_mat_def)
  fix r assume "r < N"
  then show "length (mat_set A p q v ! r) = N"
    using sq by (cases "r = p") (simp_all add: mat_set_def square_mat_def)
qed

lemma mat_set_nth:
  assumes "square_mat N A" "r < N" "c < N"
  shows "mat_set A p q v ! r ! c = (if r = p \<and> c = q then v else A ! r ! c)"
proof (cases "r = p")
  case True
  then have "mat_set A p q v ! r = (A ! r)[q := v]"
    using assms by (simp add: mat_set_def square_mat_def)
  then show ?thesis using True assms square_mat_row[OF assms(1,2)]
    by (cases "c = q") simp_all
next
  case False
  then show ?thesis by (simp add: mat_set_def)
qed

lemma fold_mat_set_square:
  "square_mat N A \<Longrightarrow> square_mat N (fold (\<lambda>q A. mat_set A p q v) qs A)"
  by (induction qs arbitrary: A) (simp_all add: mat_set_square)

lemma fold_mat_set_nth:
  assumes "square_mat N A" "r < N" "c < N"
  shows "fold (\<lambda>q A. mat_set A p q v) qs A ! r ! c
         = (if r = p \<and> c \<in> set qs then v else A ! r ! c)"
  using assms(1)
proof (induction qs arbitrary: A)
  case Nil
  then show ?case by simp
next
  case (Cons q qs)
  have "fold (\<lambda>q A. mat_set A p q v) (q # qs) A ! r ! c
        = fold (\<lambda>q A. mat_set A p q v) qs (mat_set A p q v) ! r ! c" by simp
  also have "\<dots> = (if r = p \<and> c \<in> set qs then v else mat_set A p q v ! r ! c)"
    by (rule Cons.IH[OF mat_set_square[OF Cons.prems]])
  also have "\<dots> = (if r = p \<and> c \<in> set (q # qs) then v else A ! r ! c)"
    using mat_set_nth[OF Cons.prems assms(2,3)] by auto
  finally show ?case .
qed

lemma zero_row_square: "square_mat N A \<Longrightarrow> square_mat N (zero_row A p)"
proof (rule square_mat_nthI)
  assume sq: "square_mat N A"
  show "length (zero_row A p) = N" using sq by (simp add: zero_row_def square_mat_def)
  fix r assume "r < N"
  then show "length (zero_row A p ! r) = N"
    using sq by (cases "r = p") (simp_all add: zero_row_def square_mat_def)
qed

lemma zero_row_nth:
  assumes "square_mat N A" "r < N" "c < N"
  shows "zero_row A p ! r ! c = (if r = p then 0 else A ! r ! c)"
  using assms square_mat_row[OF assms(1,2)]
  by (cases "r = p") (simp_all add: zero_row_def square_mat_def)

lemma zero_col_square: "square_mat N A \<Longrightarrow> square_mat N (zero_col A p)"
  by (auto simp: zero_col_def square_mat_def)

lemma zero_col_nth:
  assumes "square_mat N A" "r < N" "c < N"
  shows "zero_col A p ! r ! c = (if c = p then 0 else A ! r ! c)"
  using assms square_mat_row[OF assms(1,2)]
  by (cases "c = p") (simp_all add: zero_col_def square_mat_def)

text \<open>The first pass.\<close>

lemma asm_step_boundary:
  "bd p \<Longrightarrow> asm_step bd nb dg u g p (A, f, bn) = (mat_set A p p 1, f[p := u p], bn @ [p])"
  by (simp add: asm_step_def)

lemma asm_step_interior:
  "\<not> bd p \<Longrightarrow> asm_step bd nb dg u g p (A, f, bn)
     = (fold (\<lambda>q A. mat_set A p q (- 1)) (nb p) (mat_set A p p dg), f[p := g p], bn)"
  by (simp add: asm_step_def)

lemma first_pass_invariant:
  assumes "k \<le> N"
  shows "\<exists>A f. fold (asm_step bd nb dg u g) [0..<k] (lil_matrix N, replicate N 0, [])
                 = (A, f, filter bd [0..<k])
          \<and> square_mat N A \<and> length f = N
          \<and> (\<forall>r<N. \<forall>c<N. A ! r ! c = (if r < k then first_entry bd nb dg r c else 0))
          \<and> (\<forall>r<N. f ! r = (if r < k then (if bd r then u r else g r) else 0))"
  using assms
proof (induction k)
  case 0
  then show ?case by (simp add: lil_matrix_square lil_matrix_nth)
next
  case (Suc k)
  then have kN: "k < N" by simp
  from Suc.IH kN obtain A f where
    st: "fold (asm_step bd nb dg u g) [0..<k] (lil_matrix N, replicate N 0, []) = (A, f, filter bd [0..<k])"
    and sq: "square_mat N A" and lf: "length f = N"
    and ent: "\<And>r c. r < N \<Longrightarrow> c < N \<Longrightarrow> A ! r ! c = (if r < k then first_entry bd nb dg r c else 0)"
    and fv: "\<And>r. r < N \<Longrightarrow> f ! r = (if r < k then (if bd r then u r else g r) else 0)"
    by auto
  have step: "fold (asm_step bd nb dg u g) [0..<Suc k] (lil_matrix N, replicate N 0, [])
              = asm_step bd nb dg u g k (A, f, filter bd [0..<k])"
    using st by simp
  show ?case
  proof (cases "bd k")
    case True
    let ?A = "mat_set A k k 1" and ?f = "f[k := u k]"
    have "fold (asm_step bd nb dg u g) [0..<Suc k] (lil_matrix N, replicate N 0, [])
          = (?A, ?f, filter bd [0..<Suc k])"
      unfolding step using True by (simp add: asm_step_boundary)
    moreover have "square_mat N ?A" by (rule mat_set_square[OF sq])
    moreover have "length ?f = N" using lf by simp
    moreover have "\<forall>r<N. \<forall>c<N. ?A ! r ! c = (if r < Suc k then first_entry bd nb dg r c else 0)"
    proof (intro allI impI)
      fix r c assume rc: "r < N" "c < N"
      show "?A ! r ! c = (if r < Suc k then first_entry bd nb dg r c else 0)"
        unfolding mat_set_nth[OF sq rc] using ent[OF rc] True
        by (cases "r = k") (auto simp: first_entry_def less_Suc_eq)
    qed
    moreover have "\<forall>r<N. ?f ! r = (if r < Suc k then (if bd r then u r else g r) else 0)"
      using fv lf True kN by (auto simp: nth_list_update less_Suc_eq)
    ultimately show ?thesis by blast
  next
    case False
    let ?A = "fold (\<lambda>q A. mat_set A k q (- 1)) (nb k) (mat_set A k k dg)" and ?f = "f[k := g k]"
    have sq1: "square_mat N (mat_set A k k dg)" by (rule mat_set_square[OF sq])
    have "fold (asm_step bd nb dg u g) [0..<Suc k] (lil_matrix N, replicate N 0, [])
          = (?A, ?f, filter bd [0..<Suc k])"
      unfolding step using False by (simp add: asm_step_interior)
    moreover have "square_mat N ?A" by (rule fold_mat_set_square[OF sq1])
    moreover have "length ?f = N" using lf by simp
    moreover have "\<forall>r<N. \<forall>c<N. ?A ! r ! c = (if r < Suc k then first_entry bd nb dg r c else 0)"
    proof (intro allI impI)
      fix r c assume rc: "r < N" "c < N"
      show "?A ! r ! c = (if r < Suc k then first_entry bd nb dg r c else 0)"
        unfolding fold_mat_set_nth[OF sq1 rc] mat_set_nth[OF sq rc] using ent[OF rc] False
        by (cases "r = k") (auto simp: first_entry_def less_Suc_eq)
    qed
    moreover have "\<forall>r<N. ?f ! r = (if r < Suc k then (if bd r then u r else g r) else 0)"
      using fv lf False kN by (auto simp: nth_list_update less_Suc_eq)
    ultimately show ?thesis by blast
  qed
qed

text \<open>The elimination pass leaves an entry alone unless a neighbour row reads non-zero.\<close>

lemma adjust_inner_keep:
  "length (fold (\<lambda>q f. if A ! q ! p \<noteq> 0 then f[q := f ! q - A ! q ! p * u] else f) qs f)
     = length f
   \<and> (b \<notin> set qs \<or> A ! b ! p = 0 \<longrightarrow>
       fold (\<lambda>q f. if A ! q ! p \<noteq> 0 then f[q := f ! q - A ! q ! p * u] else f) qs f ! b = f ! b)"
proof (induction qs arbitrary: f)
  case Nil
  then show ?case by simp
next
  case (Cons q qs)
  let ?f' = "if A ! q ! p \<noteq> 0 then f[q := f ! q - A ! q ! p * u] else f"
  have l: "length ?f' = length f" by simp
  have k: "b \<notin> set (q # qs) \<or> A ! b ! p = 0 \<Longrightarrow> ?f' ! b = f ! b"
  proof -
    assume "b \<notin> set (q # qs) \<or> A ! b ! p = 0"
    then have "A ! q ! p \<noteq> 0 \<Longrightarrow> q \<noteq> b" by auto
    then show ?thesis by (cases "A ! q ! p \<noteq> 0") simp_all
  qed
  show ?case using Cons.IH[of ?f'] l k by auto
qed

lemma adjust_rhs_keep:
  "length (adjust_rhs nb A bn f) = length f
   \<and> ((\<forall>p \<in> set bn. b \<in> set (nb p) \<longrightarrow> A ! b ! p = 0) \<longrightarrow> adjust_rhs nb A bn f ! b = f ! b)"
  unfolding adjust_rhs_def
proof (induction bn arbitrary: f)
  case Nil
  then show ?case by simp
next
  case (Cons p bn)
  let ?f' = "fold (\<lambda>q f'. if A ! q ! p \<noteq> 0 then f'[q := f' ! q - A ! q ! p * (f ! p)] else f')
                 (nb p) f"
  have l: "length ?f' = length f" using adjust_inner_keep[of A p "f ! p" "nb p" f b] by simp
  have k: "(\<forall>p' \<in> set (p # bn). b \<in> set (nb p') \<longrightarrow> A ! b ! p' = 0) \<Longrightarrow> ?f' ! b = f ! b"
    using adjust_inner_keep[of A p "f ! p" "nb p" f b] by auto
  show ?case using Cons.IH[of ?f'] l k by (auto simp: Let_def)
qed

text \<open>The zeroing pass.\<close>

lemma zero_step_square:
  "square_mat N A \<Longrightarrow> square_mat N (mat_set (zero_col (zero_row A p) p) p p 1)"
  by (intro mat_set_square zero_col_square zero_row_square)

lemma zero_step_nth:
  assumes "square_mat N A" "r < N" "c < N"
  shows "mat_set (zero_col (zero_row A p) p) p p 1 ! r ! c
         = (if r = p \<or> c = p then (if r = c then 1 else 0) else A ! r ! c)"
  unfolding mat_set_nth[OF zero_col_square[OF zero_row_square[OF assms(1)]] assms(2,3)]
    zero_col_nth[OF zero_row_square[OF assms(1)] assms(2,3)]
    zero_row_nth[OF assms]
  by auto

lemma zero_boundary_square: "square_mat N A \<Longrightarrow> square_mat N (zero_boundary bn A)"
  unfolding zero_boundary_def
  by (induction bn arbitrary: A) (simp_all add: zero_step_square)

lemma zero_boundary_nth:
  assumes "square_mat N A" "r < N" "c < N"
  shows "zero_boundary bn A ! r ! c
         = (if r \<in> set bn \<or> c \<in> set bn then (if r = c then 1 else 0) else A ! r ! c)"
  using assms(1) unfolding zero_boundary_def
proof (induction bn arbitrary: A)
  case Nil
  then show ?case by simp
next
  case (Cons p bn)
  let ?A' = "mat_set (zero_col (zero_row A p) p) p p 1"
  have "fold (\<lambda>p A. mat_set (zero_col (zero_row A p) p) p p 1) (p # bn) A ! r ! c
        = fold (\<lambda>p A. mat_set (zero_col (zero_row A p) p) p p 1) bn ?A' ! r ! c" by simp
  also have "\<dots> = (if r \<in> set bn \<or> c \<in> set bn then (if r = c then 1 else 0) else ?A' ! r ! c)"
    by (rule Cons.IH[OF zero_step_square[OF Cons.prems]])
  also have "\<dots> = (if r \<in> set (p # bn) \<or> c \<in> set (p # bn) then (if r = c then 1 else 0)
                    else A ! r ! c)"
    unfolding zero_step_nth[OF Cons.prems assms(2,3)] by auto
  finally show ?case .
qed

text \<open>The three passes together, for either dimension.\<close>

lemma assemble_generic:
  assumes irrefl: "\<And>p. p < N \<Longrightarrow> p \<notin> set (nb p)"
  shows "\<exists>A1 f1 bn.
           fold (asm_step bd nb dg u g) [0..<N] (lil_matrix N, replicate N 0, []) = (A1, f1, bn)
         \<and> bn = filter bd [0..<N]
         \<and> square_mat N A1 \<and> (\<forall>r<N. \<forall>c<N. A1 ! r ! c = first_entry bd nb dg r c)
         \<and> length f1 = N \<and> (\<forall>r<N. f1 ! r = (if bd r then u r else g r))
         \<and> square_mat N (zero_boundary bn A1)
         \<and> (\<forall>r<N. \<forall>c<N. zero_boundary bn A1 ! r ! c = final_entry bd nb dg r c)
         \<and> length (adjust_rhs nb A1 bn f1) = N
         \<and> (\<forall>p<N. bd p \<longrightarrow> adjust_rhs nb A1 bn f1 ! p = f1 ! p)"
proof -
  from first_pass_invariant[of N N bd nb dg u g, OF le_refl] obtain A1 f1 where
    st: "fold (asm_step bd nb dg u g) [0..<N] (lil_matrix N, replicate N 0, [])
          = (A1, f1, filter bd [0..<N])"
    and sq: "square_mat N A1" and lf: "length f1 = N"
    and ent: "\<And>r c. r < N \<Longrightarrow> c < N \<Longrightarrow> A1 ! r ! c = first_entry bd nb dg r c"
    and fv: "\<And>r. r < N \<Longrightarrow> f1 ! r = (if bd r then u r else g r)"
    by auto
  let ?bn = "filter bd [0..<N]"
  have fin: "\<forall>r<N. \<forall>c<N. zero_boundary ?bn A1 ! r ! c = final_entry bd nb dg r c"
  proof (intro allI impI)
    fix r c assume rc: "r < N" "c < N"
    show "zero_boundary ?bn A1 ! r ! c = final_entry bd nb dg r c"
      unfolding zero_boundary_nth[OF sq rc] using rc ent[OF rc]
      by (auto simp: final_entry_def first_entry_def)
  qed
  have keep: "\<forall>p<N. bd p \<longrightarrow> adjust_rhs nb A1 ?bn f1 ! p = f1 ! p"
  proof (intro allI impI)
    fix b assume b: "b < N" "bd b"
    have "\<forall>p \<in> set ?bn. b \<in> set (nb p) \<longrightarrow> A1 ! b ! p = 0"
    proof (intro ballI impI)
      fix p assume p: "p \<in> set ?bn" "b \<in> set (nb p)"
      then have pN: "p < N" by simp
      then have "p \<noteq> b" using irrefl[OF pN] p(2) by auto
      then show "A1 ! b ! p = 0" using ent[OF b(1) pN] b(2) by (simp add: first_entry_def)
    qed
    then show "adjust_rhs nb A1 ?bn f1 ! b = f1 ! b"
      using adjust_rhs_keep[of nb A1 ?bn f1 b] by simp
  qed
  have "length (adjust_rhs nb A1 ?bn f1) = N"
    using adjust_rhs_keep[of nb A1 ?bn f1 0] lf by simp
  then show ?thesis
    using st sq lf ent fv zero_boundary_square[OF sq, of ?bn] fin keep by blast
qed

lemma mem_guarded4:
  "x \<in> set ((if a then [x1] else []) @ (if b then [x2] else [])
            @ (if c then [x3] else []) @ (if d then [x4] else []))
   \<longleftrightarrow> (a \<and> x = x1) \<or> (b \<and> x = x2) \<or> (c \<and> x = x3) \<or> (d \<and> x = x4)"
  by auto

lemma mem_guarded6:
  "x \<in> set ((if a then [x1] else []) @ (if b then [x2] else [])
            @ (if c then [x3] else []) @ (if d then [x4] else [])
            @ (if e then [x5] else []) @ (if f then [x6] else []))
   \<longleftrightarrow> (a \<and> x = x1) \<or> (b \<and> x = x2) \<or> (c \<and> x = x3) \<or> (d \<and> x = x4)
       \<or> (e \<and> x = x5) \<or> (f \<and> x = x6)"
  by auto

lemma nb2_irrefl: "p < n * n \<Longrightarrow> p \<notin> set (get_neighbors_2d p n)"
proof -
  assume p: "p < n * n"
  then have n: "0 < n" by (cases n) simp_all
  have a: "0 < p mod n \<Longrightarrow> p \<noteq> p - 1" using mod_pos_pos[of p n] by simp
  have b: "p \<noteq> p + 1" by simp
  have c: "0 < p div n \<Longrightarrow> p \<noteq> p - n" using div_pos_ge[of p n] n by simp
  have d: "p \<noteq> p + n" using n by simp
  show ?thesis unfolding get_neighbors_2d_def Let_def mem_guarded4
    using a b c d by blast
qed

lemma nb3_irrefl: "p < n * n * n \<Longrightarrow> p \<notin> set (get_neighbors_3d p n)"
proof -
  assume p: "p < n * n * n"
  then have n: "0 < n" by (cases n) simp_all
  have a: "0 < p mod n \<Longrightarrow> p \<noteq> p - 1" using mod_pos_pos[of p n] by simp
  have b: "p \<noteq> p + 1" by simp
  have c: "0 < p mod (n * n) div n \<Longrightarrow> p \<noteq> p - n"
  proof -
    assume "0 < p mod (n * n) div n"
    then have "n \<le> p mod (n * n)" by (rule div_pos_ge)
    also have "\<dots> \<le> p" by simp
    finally show ?thesis using n by simp
  qed
  have d: "p \<noteq> p + n" using n by simp
  have e: "0 < p div (n * n) \<Longrightarrow> p \<noteq> p - n * n"
  proof -
    assume "0 < p div (n * n)"
    then have "n * n \<le> p" by (rule div_pos_ge)
    moreover have "0 < n * n" using n by simp
    ultimately show ?thesis by linarith
  qed
  have f: "p \<noteq> p + n * n" using n by simp
  show ?thesis unfolding get_neighbors_3d_def Let_def mem_guarded6
    using a b c d e f by blast
qed

lemma assemble_2d_props:
  "\<exists>A1 f1 bn. first_pass_2d n = (A1, f1, bn)
     \<and> assemble_2d n = (zero_boundary bn A1, adjust_rhs (\<lambda>p. get_neighbors_2d p n) A1 bn f1)
     \<and> bn = filter (\<lambda>p. on_boundary_2d p n) [0..<n * n]
     \<and> square_mat (n * n) A1
     \<and> (\<forall>r<n * n. \<forall>c<n * n. A1 ! r ! c
           = first_entry (\<lambda>p. on_boundary_2d p n) (\<lambda>p. get_neighbors_2d p n) 4 r c)
     \<and> length f1 = n * n
     \<and> (\<forall>r<n * n. f1 ! r = (if on_boundary_2d r n then u0_2d n r else src_2d n r))
     \<and> square_mat (n * n) (zero_boundary bn A1)
     \<and> (\<forall>r<n * n. \<forall>c<n * n. zero_boundary bn A1 ! r ! c
           = final_entry (\<lambda>p. on_boundary_2d p n) (\<lambda>p. get_neighbors_2d p n) 4 r c)
     \<and> length (adjust_rhs (\<lambda>p. get_neighbors_2d p n) A1 bn f1) = n * n
     \<and> (\<forall>p<n * n. on_boundary_2d p n \<longrightarrow>
           adjust_rhs (\<lambda>p. get_neighbors_2d p n) A1 bn f1 ! p = f1 ! p)"
proof -
  from assemble_generic[of "n * n" "\<lambda>p. get_neighbors_2d p n" "\<lambda>p. on_boundary_2d p n" 4
      "u0_2d n" "src_2d n", OF nb2_irrefl]
  obtain A1 f1 bn where
    h: "fold (asm_step (\<lambda>p. on_boundary_2d p n) (\<lambda>p. get_neighbors_2d p n) 4 (u0_2d n) (src_2d n))
          [0..<n * n] (lil_matrix (n * n), replicate (n * n) 0, []) = (A1, f1, bn)"
     "bn = filter (\<lambda>p. on_boundary_2d p n) [0..<n * n]"
     "square_mat (n * n) A1"
     "\<forall>r<n * n. \<forall>c<n * n. A1 ! r ! c
           = first_entry (\<lambda>p. on_boundary_2d p n) (\<lambda>p. get_neighbors_2d p n) 4 r c"
     "length f1 = n * n"
     "\<forall>r<n * n. f1 ! r = (if on_boundary_2d r n then u0_2d n r else src_2d n r)"
     "square_mat (n * n) (zero_boundary bn A1)"
     "\<forall>r<n * n. \<forall>c<n * n. zero_boundary bn A1 ! r ! c
           = final_entry (\<lambda>p. on_boundary_2d p n) (\<lambda>p. get_neighbors_2d p n) 4 r c"
     "length (adjust_rhs (\<lambda>p. get_neighbors_2d p n) A1 bn f1) = n * n"
     "\<forall>p<n * n. on_boundary_2d p n \<longrightarrow>
           adjust_rhs (\<lambda>p. get_neighbors_2d p n) A1 bn f1 ! p = f1 ! p"
    by blast
  have fp: "first_pass_2d n = (A1, f1, bn)" using h(1) by (simp add: first_pass_2d_flat)
  have "assemble_2d n = (zero_boundary bn A1, adjust_rhs (\<lambda>p. get_neighbors_2d p n) A1 bn f1)"
    by (simp add: assemble_2d_def fp Let_def)
  with fp h(2-) show ?thesis by blast
qed

lemma assemble_3d_props:
  "\<exists>A1 f1 bn. first_pass_3d n = (A1, f1, bn)
     \<and> assemble_3d n = (zero_boundary bn A1, adjust_rhs (\<lambda>p. get_neighbors_3d p n) A1 bn f1)
     \<and> bn = filter (\<lambda>p. on_boundary_3d p n) [0..<n * n * n]
     \<and> square_mat (n * n * n) A1
     \<and> (\<forall>r<n * n * n. \<forall>c<n * n * n. A1 ! r ! c
           = first_entry (\<lambda>p. on_boundary_3d p n) (\<lambda>p. get_neighbors_3d p n) 6 r c)
     \<and> length f1 = n * n * n
     \<and> (\<forall>r<n * n * n. f1 ! r = (if on_boundary_3d r n then u0_3d n r else src_3d n r))
     \<and> square_mat (n * n * n) (zero_boundary bn A1)
     \<and> (\<forall>r<n * n * n. \<forall>c<n * n * n. zero_boundary bn A1 ! r ! c
           = final_entry (\<lambda>p. on_boundary_3d p n) (\<lambda>p. get_neighbors_3d p n) 6 r c)
     \<and> length (adjust_rhs (\<lambda>p. get_neighbors_3d p n) A1 bn f1) = n * n * n
     \<and> (\<forall>p<n * n * n. on_boundary_3d p n \<longrightarrow>
           adjust_rhs (\<lambda>p. get_neighbors_3d p n) A1 bn f1 ! p = f1 ! p)"
proof -
  from assemble_generic[of "n * n * n" "\<lambda>p. get_neighbors_3d p n" "\<lambda>p. on_boundary_3d p n" 6
      "u0_3d n" "src_3d n", OF nb3_irrefl]
  obtain A1 f1 bn where
    h: "fold (asm_step (\<lambda>p. on_boundary_3d p n) (\<lambda>p. get_neighbors_3d p n) 6 (u0_3d n) (src_3d n))
          [0..<n * n * n] (lil_matrix (n * n * n), replicate (n * n * n) 0, []) = (A1, f1, bn)"
     "bn = filter (\<lambda>p. on_boundary_3d p n) [0..<n * n * n]"
     "square_mat (n * n * n) A1"
     "\<forall>r<n * n * n. \<forall>c<n * n * n. A1 ! r ! c
           = first_entry (\<lambda>p. on_boundary_3d p n) (\<lambda>p. get_neighbors_3d p n) 6 r c"
     "length f1 = n * n * n"
     "\<forall>r<n * n * n. f1 ! r = (if on_boundary_3d r n then u0_3d n r else src_3d n r)"
     "square_mat (n * n * n) (zero_boundary bn A1)"
     "\<forall>r<n * n * n. \<forall>c<n * n * n. zero_boundary bn A1 ! r ! c
           = final_entry (\<lambda>p. on_boundary_3d p n) (\<lambda>p. get_neighbors_3d p n) 6 r c"
     "length (adjust_rhs (\<lambda>p. get_neighbors_3d p n) A1 bn f1) = n * n * n"
     "\<forall>p<n * n * n. on_boundary_3d p n \<longrightarrow>
           adjust_rhs (\<lambda>p. get_neighbors_3d p n) A1 bn f1 ! p = f1 ! p"
    by blast
  have fp: "first_pass_3d n = (A1, f1, bn)" using h(1) by (simp add: first_pass_3d_flat)
  have "assemble_3d n = (zero_boundary bn A1, adjust_rhs (\<lambda>p. get_neighbors_3d p n) A1 bn f1)"
    by (simp add: assemble_3d_def fp Let_def)
  with fp h(2-) show ?thesis by blast
qed

text \<open>The exact-solution oracle.\<close>

lemma fold_fill:
  assumes "k \<le> N"
  shows "length (fold (\<lambda>p u. u[p := h p]) [0..<k] (replicate N (0::real))) = N
       \<and> (\<forall>r<N. fold (\<lambda>p u. u[p := h p]) [0..<k] (replicate N 0) ! r = (if r < k then h r else 0))"
  using assms
proof (induction k)
  case 0
  then show ?case by simp
next
  case (Suc k)
  then show ?case by (auto simp: nth_list_update less_Suc_eq)
qed

lemma exact_solution_2d:
  assumes "dimension self = 2"
  shows "\<exists>ue. exact_solution self n = ([], Some ue) \<and> length ue = n * n
             \<and> (\<forall>p<n * n. ue ! p = u0_2d n p)"
proof -
  let ?g = "\<lambda>i j (u::vec). u[i * n + j := sin ((real i + 1) * spacing_of n * ((real j + 1) * spacing_of n))]"
  let ?ue = "fold (\<lambda>i u. fold (\<lambda>j u. ?g i j u) [0..<n] u) [0..<n] (replicate (n * n) 0)"
  have e: "exact_solution self n = ([], Some ?ue)"
    using assms by (simp add: exact_solution_def Let_def)
  have "?ue = fold (\<lambda>p. ?g (p div n) (p mod n)) [0..<n * n] (replicate (n * n) 0)"
    by (rule fold_grid2)
  also have "\<dots> = fold (\<lambda>p u. u[p := u0_2d n p]) [0..<n * n] (replicate (n * n) 0)"
    by (simp add: u0_2d_def)
  finally have "?ue = fold (\<lambda>p u. u[p := u0_2d n p]) [0..<n * n] (replicate (n * n) 0)" .
  then show ?thesis using e fold_fill[of "n * n" "n * n" "u0_2d n", OF le_refl] by simp
qed

lemma exact_solution_3d:
  assumes "dimension self = 3"
  shows "\<exists>ue. exact_solution self n = ([], Some ue) \<and> length ue = n * n * n
             \<and> (\<forall>p<n * n * n. ue ! p = u0_3d n p)"
proof -
  let ?g = "\<lambda>i j k (u::vec). u[i * n * n + j * n + k :=
      sin ((real i + 1) * spacing_of n * ((real j + 1) * spacing_of n) * ((real k + 1) * spacing_of n))]"
  let ?ue = "fold (\<lambda>i u. fold (\<lambda>j u. fold (\<lambda>k u. ?g i j k u) [0..<n] u) [0..<n] u) [0..<n]
               (replicate (n * n * n) 0)"
  have e: "exact_solution self n = ([], Some ?ue)"
    using assms by (simp add: exact_solution_def Let_def)
  have d: "\<And>p. p div (n * n) * n * n + p mod (n * n) div n * n + p mod n = p"
    using decomp3[of _ n] by simp
  have "?ue = fold (\<lambda>p. ?g (p div (n * n)) (p mod (n * n) div n) (p mod n)) [0..<n * n * n]
                (replicate (n * n * n) 0)"
    by (rule fold_grid3)
  also have "\<dots> = fold (\<lambda>p u. u[p := u0_3d n p]) [0..<n * n * n] (replicate (n * n * n) 0)"
    by (simp add: u0_3d_def d)
  finally have "?ue = fold (\<lambda>p u. u[p := u0_3d n p]) [0..<n * n * n] (replicate (n * n * n) 0)" .
  then show ?thesis using e fold_fill[of "n * n * n" "n * n * n" "u0_3d n", OF le_refl] by simp
qed

text \<open>
  C9.  For \<open>n \<ge> 1\<close>, \<open>D \<in> {2, 3}\<close> and a boundary index \<open>p\<close>, the assembled right-hand side
  and the exact solution agree at \<open>p\<close>: the first pass stores \<open>u\<^sub>0\<close> there, evaluated as
  \<open>exact_solution\<close> evaluates it, the elimination pass leaves the entry as it is, and the
  zeroing pass works on the matrix only.
\<close>

theorem boundary_rhs_exact:
  assumes "1 \<le> n"
  shows "(dimension self = 2 \<and> p < n * n \<and> on_boundary_2d p n \<longrightarrow>
           (\<exists>A b ue A1 f1 bn.
               build_matrix_and_rhs n 2 = ([], Some A, Some b)
             \<and> exact_solution self n = ([], Some ue)
             \<and> first_pass_2d n = (A1, f1, bn)
             \<and> b = adjust_rhs (\<lambda>p. get_neighbors_2d p n) A1 bn f1
             \<and> f1 ! p = u0_2d n p \<and> b ! p = f1 ! p \<and> ue ! p = u0_2d n p
             \<and> b ! p = ue ! p))
       \<and> (dimension self = 3 \<and> p < n * n * n \<and> on_boundary_3d p n \<longrightarrow>
           (\<exists>A b ue A1 f1 bn.
               build_matrix_and_rhs n 3 = ([], Some A, Some b)
             \<and> exact_solution self n = ([], Some ue)
             \<and> first_pass_3d n = (A1, f1, bn)
             \<and> b = adjust_rhs (\<lambda>p. get_neighbors_3d p n) A1 bn f1
             \<and> f1 ! p = u0_3d n p \<and> b ! p = f1 ! p \<and> ue ! p = u0_3d n p
             \<and> b ! p = ue ! p))"
proof (intro conjI impI)
  assume h: "dimension self = 2 \<and> p < n * n \<and> on_boundary_2d p n"
  from assemble_2d_props[of n] obtain A1 f1 bn where
    a: "first_pass_2d n = (A1, f1, bn)"
       "assemble_2d n = (zero_boundary bn A1, adjust_rhs (\<lambda>p. get_neighbors_2d p n) A1 bn f1)"
       "\<forall>r<n * n. f1 ! r = (if on_boundary_2d r n then u0_2d n r else src_2d n r)"
       "\<forall>p<n * n. on_boundary_2d p n \<longrightarrow>
           adjust_rhs (\<lambda>p. get_neighbors_2d p n) A1 bn f1 ! p = f1 ! p"
    by blast
  from exact_solution_2d[of self n] h obtain ue where
    e: "exact_solution self n = ([], Some ue)" "\<forall>p<n * n. ue ! p = u0_2d n p" by blast
  let ?b = "adjust_rhs (\<lambda>p. get_neighbors_2d p n) A1 bn f1"
  have "build_matrix_and_rhs n 2 = ([], Some (zero_boundary bn A1), Some ?b)"
    by (simp add: build_matrix_and_rhs_def a(2))
  moreover have "f1 ! p = u0_2d n p" using a(3) h by simp
  moreover have "?b ! p = f1 ! p" using a(4) h by simp
  moreover have "ue ! p = u0_2d n p" using e(2) h by simp
  ultimately show "\<exists>A b ue A1 f1 bn.
               build_matrix_and_rhs n 2 = ([], Some A, Some b)
             \<and> exact_solution self n = ([], Some ue)
             \<and> first_pass_2d n = (A1, f1, bn)
             \<and> b = adjust_rhs (\<lambda>p. get_neighbors_2d p n) A1 bn f1
             \<and> f1 ! p = u0_2d n p \<and> b ! p = f1 ! p \<and> ue ! p = u0_2d n p
             \<and> b ! p = ue ! p"
    using a(1) e(1) by auto
next
  assume h: "dimension self = 3 \<and> p < n * n * n \<and> on_boundary_3d p n"
  from assemble_3d_props[of n] obtain A1 f1 bn where
    a: "first_pass_3d n = (A1, f1, bn)"
       "assemble_3d n = (zero_boundary bn A1, adjust_rhs (\<lambda>p. get_neighbors_3d p n) A1 bn f1)"
       "\<forall>r<n * n * n. f1 ! r = (if on_boundary_3d r n then u0_3d n r else src_3d n r)"
       "\<forall>p<n * n * n. on_boundary_3d p n \<longrightarrow>
           adjust_rhs (\<lambda>p. get_neighbors_3d p n) A1 bn f1 ! p = f1 ! p"
    by blast
  from exact_solution_3d[of self n] h obtain ue where
    e: "exact_solution self n = ([], Some ue)" "\<forall>p<n * n * n. ue ! p = u0_3d n p" by blast
  let ?b = "adjust_rhs (\<lambda>p. get_neighbors_3d p n) A1 bn f1"
  have "build_matrix_and_rhs n 3 = ([], Some (zero_boundary bn A1), Some ?b)"
    by (simp add: build_matrix_and_rhs_def a(2))
  moreover have "f1 ! p = u0_3d n p" using a(3) h by simp
  moreover have "?b ! p = f1 ! p" using a(4) h by simp
  moreover have "ue ! p = u0_3d n p" using e(2) h by simp
  ultimately show "\<exists>A b ue A1 f1 bn.
               build_matrix_and_rhs n 3 = ([], Some A, Some b)
             \<and> exact_solution self n = ([], Some ue)
             \<and> first_pass_3d n = (A1, f1, bn)
             \<and> b = adjust_rhs (\<lambda>p. get_neighbors_3d p n) A1 bn f1
             \<and> f1 ! p = u0_3d n p \<and> b ! p = f1 ! p \<and> ue ! p = u0_3d n p
             \<and> b ! p = ue ! p"
    using a(1) e(1) by auto
qed

theorem boundary_rhs_exact_witness:
  "(1::nat) \<le> 3 \<and> (0::nat) < 3 * 3 \<and> (0::nat) < 3 * 3 * 3
   \<and> on_boundary_2d 0 3 \<and> on_boundary_3d 0 3
   \<and> (\<exists>A b ue. build_matrix_and_rhs 3 2 = ([], Some A, Some b)
         \<and> exact_solution \<lparr>n_elements = 3, dimension = 2, matrix = [], rhs = [],
               reordered_matrix = [], cholesky_factor = [], cholesky_factor_reorderd = []\<rparr> 3
             = ([], Some ue)
         \<and> b ! 0 = ue ! 0 \<and> ue ! 0 = sin (1 / 16))
   \<and> (\<exists>A b ue. build_matrix_and_rhs 3 3 = ([], Some A, Some b)
         \<and> exact_solution \<lparr>n_elements = 3, dimension = 3, matrix = [], rhs = [],
               reordered_matrix = [], cholesky_factor = [], cholesky_factor_reorderd = []\<rparr> 3
             = ([], Some ue)
         \<and> b ! 0 = ue ! 0 \<and> ue ! 0 = sin (1 / 64))"
proof -
  let ?S2 = "\<lparr>n_elements = 3, dimension = 2, matrix = [], rhs = [],
               reordered_matrix = [], cholesky_factor = [], cholesky_factor_reorderd = []\<rparr>"
  let ?S3 = "\<lparr>n_elements = 3, dimension = 3, matrix = [], rhs = [],
               reordered_matrix = [], cholesky_factor = [], cholesky_factor_reorderd = []\<rparr>"
  have c: "on_boundary_2d 0 3" "on_boundary_3d 0 3"
    by (simp_all add: on_boundary_2d_def on_boundary_3d_def)
  have u2: "u0_2d 3 0 = sin (1 / 16)" by (simp add: u0_2d_def spacing_of_def)
  have u3: "u0_3d 3 0 = sin (1 / 64)" by (simp add: u0_3d_def spacing_of_def)
  have "\<exists>A b ue. build_matrix_and_rhs 3 2 = ([], Some A, Some b)
         \<and> exact_solution ?S2 3 = ([], Some ue) \<and> b ! 0 = ue ! 0 \<and> ue ! 0 = sin (1 / 16)"
    using boundary_rhs_exact[of 3 ?S2 0] c u2 by auto
  moreover have "\<exists>A b ue. build_matrix_and_rhs 3 3 = ([], Some A, Some b)
         \<and> exact_solution ?S3 3 = ([], Some ue) \<and> b ! 0 = ue ! 0 \<and> ue ! 0 = sin (1 / 64)"
    using boundary_rhs_exact[of 3 ?S3 0] c u3 by auto
  ultimately show ?thesis using c by simp
qed

text \<open>Symmetry of the neighbour relation.\<close>

lemma dist1_sym: "dist1 a b \<longleftrightarrow> dist1 b a"
  by (auto simp: dist1_def)

lemma nb2_sym:
  assumes "r < n * n" "c < n * n" "c \<in> set (get_neighbors_2d r n)"
  shows "r \<in> set (get_neighbors_2d c n)"
proof -
  have n: "0 < n" using assms(1) by (cases n) simp_all
  from assms(3) have "c \<in> grid_neighbours_2d r n" using nb2_set[OF assms(1)] by simp
  then obtain i' j' where c: "c = i' * n + j'" "i' < n" "j' < n"
    and d: "(dist1 i' (r div n) \<and> j' = r mod n) \<or> (i' = r div n \<and> dist1 j' (r mod n))"
    unfolding grid_neighbours_2d_def by blast
  have cd: "c div n = i'" "c mod n = j'" using c by simp_all
  have rr: "r = (r div n) * n + r mod n" by simp
  have "r div n < n" using assms(1) by (simp add: less_mult_imp_div_less)
  moreover have "r mod n < n" using n by simp
  moreover have "(dist1 (r div n) (c div n) \<and> r mod n = c mod n)
               \<or> (r div n = c div n \<and> dist1 (r mod n) (c mod n))"
    using d cd dist1_sym by auto
  ultimately have "r \<in> grid_neighbours_2d c n"
    unfolding grid_neighbours_2d_def using rr by blast
  then show ?thesis using nb2_set[OF assms(2)] by simp
qed

lemma nb3_sym:
  assumes "r < n * n * n" "c < n * n * n" "c \<in> set (get_neighbors_3d r n)"
  shows "r \<in> set (get_neighbors_3d c n)"
proof -
  have n: "0 < n" using assms(1) by (cases n) simp_all
  from assms(3) have "c \<in> grid_neighbours_3d r n" using nb3_set[OF assms(1)] by simp
  then obtain i' j' k' where c: "c = i' * n * n + j' * n + k'" "i' < n" "j' < n" "k' < n"
    and d: "(dist1 i' (r div (n * n)) \<and> j' = r mod (n * n) div n \<and> k' = r mod n)
          \<or> (i' = r div (n * n) \<and> dist1 j' (r mod (n * n) div n) \<and> k' = r mod n)
          \<or> (i' = r div (n * n) \<and> j' = r mod (n * n) div n \<and> dist1 k' (r mod n))"
    unfolding grid_neighbours_3d_def by blast
  have cd: "c div (n * n) = i'" "c mod (n * n) div n = j'" "c mod n = k'"
    using lin3_div[OF c(3,4)] lin3_midx[OF c(3,4)] lin3_mod[OF c(4)] c(1) by simp_all
  have rr: "r = r div (n * n) * n * n + r mod (n * n) div n * n + r mod n" by (rule decomp3)
  have "r div (n * n) < n" using assms(1) by (simp add: less_mult_imp_div_less mult.commute)
  moreover have "r mod (n * n) div n < n" using n by (simp add: less_mult_imp_div_less)
  moreover have "r mod n < n" using n by simp
  moreover have "(dist1 (r div (n * n)) (c div (n * n)) \<and> r mod (n * n) div n = c mod (n * n) div n
                    \<and> r mod n = c mod n)
          \<or> (r div (n * n) = c div (n * n) \<and> dist1 (r mod (n * n) div n) (c mod (n * n) div n)
                    \<and> r mod n = c mod n)
          \<or> (r div (n * n) = c div (n * n) \<and> r mod (n * n) div n = c mod (n * n) div n
                    \<and> dist1 (r mod n) (c mod n))"
    using d cd dist1_sym by auto
  ultimately have "r \<in> grid_neighbours_3d c n"
    unfolding grid_neighbours_3d_def using rr by blast
  then show ?thesis using nb3_set[OF assms(2)] by simp
qed

lemma final_entry_sym:
  assumes "\<And>r c. r < N \<Longrightarrow> c < N \<Longrightarrow> c \<in> set (nb r) \<Longrightarrow> r \<in> set (nb c)"
    and "r < N" "c < N"
  shows "final_entry bd nb dg r c = final_entry bd nb dg c r"
  using assms(1)[OF assms(2,3)] assms(1)[OF assms(3,2)]
  by (auto simp: final_entry_def)

section \<open>Positive definiteness\<close>

text \<open>One grid line: the second-difference form is a sum of squared differences.\<close>

lemma line_identity:
  fixes a :: "nat \<Rightarrow> real"
  assumes "a 0 = 0"
  shows "(\<Sum>j<Suc m. a j * (2 * a j - a (j - 1) - a (Suc j)))
         = (\<Sum>j<m. (a (Suc j) - a j)\<^sup>2) + (a m)\<^sup>2 - a m * a (Suc m)"
proof (induction m)
  case 0
  then show ?case using assms by simp
next
  case (Suc m)
  have "(\<Sum>j<Suc (Suc m). a j * (2 * a j - a (j - 1) - a (Suc j)))
        = (\<Sum>j<Suc m. a j * (2 * a j - a (j - 1) - a (Suc j)))
          + a (Suc m) * (2 * a (Suc m) - a m - a (Suc (Suc m)))"
    by simp
  also have "\<dots> = (\<Sum>j<m. (a (Suc j) - a j)\<^sup>2) + (a m)\<^sup>2 - a m * a (Suc m)
          + a (Suc m) * (2 * a (Suc m) - a m - a (Suc (Suc m)))"
    by (simp only: Suc.IH)
  also have "\<dots> = (\<Sum>j<Suc m. (a (Suc j) - a j)\<^sup>2) + (a (Suc m))\<^sup>2
                    - a (Suc m) * a (Suc (Suc m))"
    by (simp add: power2_eq_square algebra_simps)
  finally show ?case .
qed

lemma line_form_squares:
  assumes "0 < n" "a 0 = 0" "a (n - 1) = 0"
  shows "line_form n a = (\<Sum>j<n - 1. (a (Suc j) - a j)\<^sup>2)"
proof -
  obtain m where m: "n = Suc m" using assms(1) by (cases n) simp_all
  have "a m = 0" using assms(3) m by simp
  then show ?thesis unfolding line_form_def m using line_identity[of a m] assms(2)
    by simp
qed

lemma line_form_nonneg:
  assumes "0 < n" "a 0 = 0" "a (n - 1) = 0"
  shows "0 \<le> line_form n a"
  unfolding line_form_squares[OF assms] by (rule sum_nonneg) simp

lemma line_form_pos:
  assumes "0 < n" "a 0 = 0" "a (n - 1) = 0" "j < n" "a j \<noteq> 0"
  shows "0 < line_form n a"
proof (rule ccontr)
  assume "\<not> 0 < line_form n a"
  then have z: "(\<Sum>j<n - 1. (a (Suc j) - a j)\<^sup>2) = 0"
    using line_form_nonneg[OF assms(1-3)] line_form_squares[OF assms(1-3)] by simp
  have "\<forall>j\<in>{..<n - 1}. (a (Suc j) - a j)\<^sup>2 = 0"
    using z by (subst (asm) sum_nonneg_eq_0_iff) simp_all
  then have eq: "\<And>k. k < n - 1 \<Longrightarrow> a (Suc k) = a k" by simp
  have "k < n \<Longrightarrow> a k = 0" for k
  proof (induction k)
    case 0
    then show ?case using assms(2) by simp
  next
    case (Suc k)
    then show ?case using eq[of k] by simp
  qed
  then show False using assms(4,5) by simp
qed

text \<open>Sums over the linear index as sums over grid coordinates.\<close>

lemma sum_grid2:
  fixes h :: "nat \<Rightarrow> real"
  shows "(\<Sum>r<m * w. h r) = (\<Sum>i<m. \<Sum>j<w. h (i * w + j))"
proof (induction m)
  case 0
  then show ?case by simp
next
  case (Suc m)
  have "{..<Suc m * w} = {..<m * w} \<union> {m * w..<m * w + w}" by auto
  then have "(\<Sum>r<Suc m * w. h r) = sum h ({..<m * w} \<union> {m * w..<m * w + w})"
    by (simp only:)
  also have "\<dots> = (\<Sum>r<m * w. h r) + (\<Sum>r = m * w..<m * w + w. h r)"
    by (rule sum.union_disjoint) auto
  also have "(\<Sum>r = m * w..<m * w + w. h r) = (\<Sum>j<w. h (m * w + j))"
    using sum.shift_bounds_nat_ivl[of h 0 "m * w" w]
    by (simp add: atLeast0LessThan add.commute)
  finally show ?case using Suc.IH by simp
qed

lemma sum_grid3:
  fixes h :: "nat \<Rightarrow> real"
  shows "(\<Sum>r<n * n * n. h r) = (\<Sum>i<n. \<Sum>j<n. \<Sum>k<n. h (i * n * n + j * n + k))"
proof -
  have "(\<Sum>r<n * (n * n). h r) = (\<Sum>i<n. \<Sum>q<n * n. h (i * (n * n) + q))"
    by (rule sum_grid2)
  also have "\<dots> = (\<Sum>i<n. \<Sum>j<n. \<Sum>k<n. h (i * (n * n) + (j * n + k)))"
    by (simp add: sum_grid2[of "\<lambda>q. h (i * (n * n) + q)" n n for i])
  finally show ?thesis by (simp add: mult.assoc add.assoc)
qed

lemma quad_form_sum:
  assumes "square_mat N A" "length x = N"
  shows "quad_form A x = (\<Sum>r<N. x ! r * (\<Sum>c<N. A ! r ! c * x ! c))"
proof -
  have l: "length (mat_vec A x) = N" using assms(1) by (simp add: length_mat_vec square_mat_length)
  have "quad_form A x = (\<Sum>r<N. x ! r * mat_vec A x ! r)"
    unfolding quad_form_def using dot_sum[of x "mat_vec A x"] assms(2) l by simp
  also have "\<dots> = (\<Sum>r<N. x ! r * (\<Sum>c<N. A ! r ! c * x ! c))"
    by (intro sum.cong) (simp_all add: mat_vec_nth[OF assms])
  finally show ?thesis .
qed

lemma row_sum_final:
  assumes ent: "\<And>c. c < N \<Longrightarrow> A ! r ! c = final_entry bd nb dg r c"
    and r: "r < N" and sub: "set (nb r) \<subseteq> {..<N}" and dis: "distinct (nb r)"
    and irr: "r \<notin> set (nb r)"
  shows "(\<Sum>c<N. A ! r ! c * x ! c)
         = (if bd r then x ! r else dg * x ! r - sum_list (map (masked bd x) (nb r)))"
proof (cases "bd r")
  case True
  have "(\<Sum>c<N. A ! r ! c * x ! c) = (\<Sum>c<N. if c = r then x ! r else 0)"
    using True by (intro sum.cong) (auto simp: ent final_entry_def)
  also have "\<dots> = x ! r" using r by simp
  finally show ?thesis using True by simp
next
  case False
  have "(\<Sum>c<N. A ! r ! c * x ! c)
        = (\<Sum>c<N. (if c = r then dg * x ! r else 0)
                  - (if c \<in> set (nb r) then masked bd x c else 0))"
  proof (intro sum.cong refl)
    fix c assume "c \<in> {..<N}"
    then have c: "c < N" by simp
    show "A ! r ! c * x ! c = (if c = r then dg * x ! r else 0)
                  - (if c \<in> set (nb r) then masked bd x c else 0)"
      unfolding ent[OF c] using False irr by (auto simp: final_entry_def masked_def)
  qed
  also have "\<dots> = (\<Sum>c<N. if c = r then dg * x ! r else 0)
                  - (\<Sum>c<N. if c \<in> set (nb r) then masked bd x c else 0)"
    by (rule sum_subtractf)
  also have "(\<Sum>c<N. if c = r then dg * x ! r else 0) = dg * x ! r" using r by simp
  also have "(\<Sum>c<N. if c \<in> set (nb r) then masked bd x c else 0)
             = sum (masked bd x) ({..<N} \<inter> set (nb r))"
    by (rule sum.inter_restrict[symmetric]) simp
  also have "{..<N} \<inter> set (nb r) = set (nb r)" using sub by auto
  also have "sum (masked bd x) (set (nb r)) = sum_list (map (masked bd x) (nb r))"
    using dis by (simp add: sum_list_distinct_conv_sum_set)
  finally show ?thesis using False by simp
qed

lemma quad_form_final:
  assumes sq: "square_mat N A" and lx: "length x = N"
    and ent: "\<And>r c. r < N \<Longrightarrow> c < N \<Longrightarrow> A ! r ! c = final_entry bd nb dg r c"
    and sub: "\<And>r. r < N \<Longrightarrow> set (nb r) \<subseteq> {..<N}"
    and dis: "\<And>r. r < N \<Longrightarrow> distinct (nb r)"
    and irr: "\<And>r. r < N \<Longrightarrow> r \<notin> set (nb r)"
  shows "quad_form A x
         = (\<Sum>r<N. if bd r then (x ! r)\<^sup>2 else 0)
         + (\<Sum>r<N. masked bd x r * (dg * masked bd x r - sum_list (map (masked bd x) (nb r))))"
proof -
  have "quad_form A x = (\<Sum>r<N. x ! r * (\<Sum>c<N. A ! r ! c * x ! c))"
    by (rule quad_form_sum[OF sq lx])
  also have "\<dots> = (\<Sum>r<N. (if bd r then (x ! r)\<^sup>2 else 0)
        + masked bd x r * (dg * masked bd x r - sum_list (map (masked bd x) (nb r))))"
  proof (intro sum.cong refl)
    fix r assume "r \<in> {..<N}"
    then have r: "r < N" by simp
    have rs: "(\<Sum>c<N. A ! r ! c * x ! c)
         = (if bd r then x ! r else dg * x ! r - sum_list (map (masked bd x) (nb r)))"
      by (rule row_sum_final[OF ent[OF r] r sub[OF r] dis[OF r] irr[OF r]])
    have m: "masked bd x r = (if bd r then 0 else x ! r)" by (simp add: masked_def)
    show "x ! r * (\<Sum>c<N. A ! r ! c * x ! c) = (if bd r then (x ! r)\<^sup>2 else 0)
        + masked bd x r * (dg * masked bd x r - sum_list (map (masked bd x) (nb r)))"
      unfolding rs m by (simp add: power2_eq_square)
  qed
  also have "\<dots> = (\<Sum>r<N. if bd r then (x ! r)\<^sup>2 else 0)
         + (\<Sum>r<N. masked bd x r * (dg * masked bd x r - sum_list (map (masked bd x) (nb r))))"
    by (rule sum.distrib)
  finally show ?thesis .
qed

lemma boundary_part_nonneg: "0 \<le> (\<Sum>r<N. if bd r then ((x::vec) ! r)\<^sup>2 else 0)"
  by (rule sum_nonneg) simp

lemma boundary_part_pos:
  assumes "r < N" "bd r" "(x::vec) ! r \<noteq> 0"
  shows "0 < (\<Sum>r<N. if bd r then (x ! r)\<^sup>2 else 0)"
proof -
  have "0 < (x ! r)\<^sup>2" using assms(3) by simp
  also have "\<dots> = (if bd r then (x ! r)\<^sup>2 else 0)" using assms(2) by simp
  also have "\<dots> \<le> (\<Sum>r<N. if bd r then (x ! r)\<^sup>2 else 0)"
    using assms(1) by (intro member_le_sum) simp_all
  finally show ?thesis .
qed

lemma on_boundary_2d_coords:
  assumes "j < n"
  shows "on_boundary_2d (i * n + j) n \<longleftrightarrow> i = 0 \<or> i = n - 1 \<or> j = 0 \<or> j = n - 1"
  using assms by (simp add: on_boundary_2d_def)

lemma on_boundary_3d_coords:
  assumes "j < n" "k < n"
  shows "on_boundary_3d (i * n * n + j * n + k) n
         \<longleftrightarrow> i = 0 \<or> i = n - 1 \<or> j = 0 \<or> j = n - 1 \<or> k = 0 \<or> k = n - 1"
  unfolding on_boundary_3d_def Let_def lin3_div[OF assms] lin3_midx[OF assms] lin3_mod[OF assms(2)]
  ..

lemma cell_form_2d:
  fixes y :: "nat \<Rightarrow> real"
  assumes i: "i < n" and j: "j < n"
    and van: "on_boundary_2d (i * n + j) n \<Longrightarrow> y (i * n + j) = 0"
  shows "y (i * n + j) * (4 * y (i * n + j) - sum_list (map y (get_neighbors_2d (i * n + j) n)))
       = y (i * n + j) * (2 * y (i * n + j) - y (i * n + (j - 1)) - y (i * n + Suc j))
       + y (i * n + j) * (2 * y (i * n + j) - y ((i - 1) * n + j) - y (Suc i * n + j))"
proof (cases "on_boundary_2d (i * n + j) n")
  case True
  then show ?thesis using van by simp
next
  case False
  then have g: "0 < j" "j < n - 1" "0 < i" "i < n - 1"
    using on_boundary_2d_coords[OF j, of i] i j by auto
  have "get_neighbors_2d (i * n + j) n
        = [i * n + (j - 1), i * n + (j + 1), (i - 1) * n + j, (i + 1) * n + j]"
    unfolding nb2_coords[OF j] using g by simp
  then show ?thesis by (simp add: algebra_simps)
qed

lemma lines_nonneg:
  fixes a :: "nat \<Rightarrow> nat \<Rightarrow> real"
  assumes "0 < n" "\<And>i. i < m \<Longrightarrow> a i 0 = 0 \<and> a i (n - 1) = 0"
  shows "0 \<le> (\<Sum>i<m. line_form n (a i))"
  using assms by (intro sum_nonneg line_form_nonneg) simp_all

lemma lines_pos:
  fixes a :: "nat \<Rightarrow> nat \<Rightarrow> real"
  assumes "0 < n" "\<And>i. i < m \<Longrightarrow> a i 0 = 0 \<and> a i (n - 1) = 0"
    and "i0 < m" "j < n" "a i0 j \<noteq> 0"
  shows "0 < (\<Sum>i<m. line_form n (a i))"
proof (rule sum_pos2[of _ i0])
  show "0 < line_form n (a i0)"
    using assms by (intro line_form_pos[of n "a i0" j]) simp_all
  show "\<And>i. i \<in> {..<m} \<Longrightarrow> 0 \<le> line_form n (a i)"
    using assms by (intro line_form_nonneg) simp_all
qed (use assms in simp_all)

lemma interior_form_2d:
  fixes y :: "nat \<Rightarrow> real"
  assumes van: "\<And>r. r < n * n \<Longrightarrow> on_boundary_2d r n \<Longrightarrow> y r = 0"
  shows "(\<Sum>r<n * n. y r * (4 * y r - sum_list (map y (get_neighbors_2d r n))))
       = (\<Sum>i<n. line_form n (\<lambda>j. y (i * n + j))) + (\<Sum>j<n. line_form n (\<lambda>i. y (i * n + j)))"
proof -
  have lt: "\<And>i j. i < n \<Longrightarrow> j < n \<Longrightarrow> i * n + j < n * n"
  proof -
    fix i j assume "i < n" "j < n"
    then have "i * n + j < i * n + n" by simp
    also have "\<dots> = Suc i * n" by simp
    also have "\<dots> \<le> n * n" using \<open>i < n\<close> by (intro mult_le_mono1) simp
    finally show "i * n + j < n * n" .
  qed
  have "(\<Sum>r<n * n. y r * (4 * y r - sum_list (map y (get_neighbors_2d r n))))
      = (\<Sum>i<n. \<Sum>j<n. y (i * n + j) * (4 * y (i * n + j)
                - sum_list (map y (get_neighbors_2d (i * n + j) n))))"
    by (rule sum_grid2)
  also have "\<dots> = (\<Sum>i<n. \<Sum>j<n.
        y (i * n + j) * (2 * y (i * n + j) - y (i * n + (j - 1)) - y (i * n + Suc j))
      + y (i * n + j) * (2 * y (i * n + j) - y ((i - 1) * n + j) - y (Suc i * n + j)))"
  proof (intro sum.cong refl)
    fix i j assume "i \<in> {..<n}" "j \<in> {..<n}"
    then have ij: "i < n" "j < n" by simp_all
    show "y (i * n + j) * (4 * y (i * n + j) - sum_list (map y (get_neighbors_2d (i * n + j) n)))
       = y (i * n + j) * (2 * y (i * n + j) - y (i * n + (j - 1)) - y (i * n + Suc j))
       + y (i * n + j) * (2 * y (i * n + j) - y ((i - 1) * n + j) - y (Suc i * n + j))"
      using cell_form_2d[of i n j y] ij van[OF lt[OF ij]] by blast
  qed
  also have "\<dots> = (\<Sum>i<n. \<Sum>j<n.
        y (i * n + j) * (2 * y (i * n + j) - y (i * n + (j - 1)) - y (i * n + Suc j)))
      + (\<Sum>i<n. \<Sum>j<n.
        y (i * n + j) * (2 * y (i * n + j) - y ((i - 1) * n + j) - y (Suc i * n + j)))"
    by (simp add: sum.distrib)
  also have "(\<Sum>i<n. \<Sum>j<n.
        y (i * n + j) * (2 * y (i * n + j) - y ((i - 1) * n + j) - y (Suc i * n + j)))
      = (\<Sum>j<n. \<Sum>i<n.
        y (i * n + j) * (2 * y (i * n + j) - y ((i - 1) * n + j) - y (Suc i * n + j)))"
    by (rule sum.swap)
  finally show ?thesis unfolding line_form_def .
qed

lemma lin2_less: "i < n \<Longrightarrow> j < n \<Longrightarrow> i * n + j < n * (n::nat)"
proof -
  assume "i < n" "j < n"
  then have "i * n + j < i * n + n" by simp
  also have "\<dots> = Suc i * n" by simp
  also have "\<dots> \<le> n * n" using \<open>i < n\<close> by (intro mult_le_mono1) simp
  finally show "i * n + j < n * n" .
qed

lemma nb2_in_range:
  assumes "r < n * n" shows "set (get_neighbors_2d r n) \<subseteq> {..<n * n}"
proof
  fix c assume "c \<in> set (get_neighbors_2d r n)"
  then have "c \<in> grid_neighbours_2d r n" using nb2_set[OF assms] by simp
  then obtain i' j' where "c = i' * n + j'" "i' < n" "j' < n"
    unfolding grid_neighbours_2d_def by blast
  then show "c \<in> {..<n * n}" using lin2_less by simp
qed

lemma interior_2d_nonneg:
  fixes y :: "nat \<Rightarrow> real"
  assumes n: "0 < n" and van: "\<And>r. on_boundary_2d r n \<Longrightarrow> y r = 0"
  shows "0 \<le> (\<Sum>r<n * n. y r * (4 * y r - sum_list (map y (get_neighbors_2d r n))))"
proof -
  have a: "\<And>i. i < n \<Longrightarrow> y (i * n + 0) = 0 \<and> y (i * n + (n - 1)) = 0"
  proof -
    fix i
    have "on_boundary_2d (i * n + 0) n" using on_boundary_2d_coords[of 0 n i] n by simp
    moreover have "on_boundary_2d (i * n + (n - 1)) n"
      using on_boundary_2d_coords[of "n - 1" n i] n by simp
    ultimately show "y (i * n + 0) = 0 \<and> y (i * n + (n - 1)) = 0" using van by blast
  qed
  have b: "\<And>j. j < n \<Longrightarrow> y (0 * n + j) = 0 \<and> y ((n - 1) * n + j) = 0"
  proof -
    fix j assume j: "j < n"
    have "on_boundary_2d (0 * n + j) n" using on_boundary_2d_coords[OF j, of 0] by simp
    moreover have "on_boundary_2d ((n - 1) * n + j) n"
      using on_boundary_2d_coords[OF j, of "n - 1"] by simp
    ultimately show "y (0 * n + j) = 0 \<and> y ((n - 1) * n + j) = 0" using van by blast
  qed
  have eq: "(\<Sum>r<n * n. y r * (4 * y r - sum_list (map y (get_neighbors_2d r n))))
       = (\<Sum>i<n. line_form n (\<lambda>j. y (i * n + j))) + (\<Sum>j<n. line_form n (\<lambda>i. y (i * n + j)))"
    by (rule interior_form_2d) (rule van)
  show ?thesis
    unfolding eq
    using lines_nonneg[of n n "\<lambda>i j. y (i * n + j)", OF n a]
          lines_nonneg[of n n "\<lambda>j i. y (i * n + j)", OF n b]
    by simp
qed

lemma interior_2d_pos:
  fixes y :: "nat \<Rightarrow> real"
  assumes n: "0 < n" and van: "\<And>r. on_boundary_2d r n \<Longrightarrow> y r = 0"
    and r: "r < n * n" "y r \<noteq> 0"
  shows "0 < (\<Sum>r<n * n. y r * (4 * y r - sum_list (map y (get_neighbors_2d r n))))"
proof -
  have a: "\<And>i. i < n \<Longrightarrow> y (i * n + 0) = 0 \<and> y (i * n + (n - 1)) = 0"
  proof -
    fix i
    have "on_boundary_2d (i * n + 0) n" using on_boundary_2d_coords[of 0 n i] n by simp
    moreover have "on_boundary_2d (i * n + (n - 1)) n"
      using on_boundary_2d_coords[of "n - 1" n i] n by simp
    ultimately show "y (i * n + 0) = 0 \<and> y (i * n + (n - 1)) = 0" using van by blast
  qed
  have b: "\<And>j. j < n \<Longrightarrow> y (0 * n + j) = 0 \<and> y ((n - 1) * n + j) = 0"
  proof -
    fix j assume j: "j < n"
    have "on_boundary_2d (0 * n + j) n" using on_boundary_2d_coords[OF j, of 0] by simp
    moreover have "on_boundary_2d ((n - 1) * n + j) n"
      using on_boundary_2d_coords[OF j, of "n - 1"] by simp
    ultimately show "y (0 * n + j) = 0 \<and> y ((n - 1) * n + j) = 0" using van by blast
  qed
  have i: "r div n < n" using r(1) by (simp add: less_mult_imp_div_less)
  have j: "r mod n < n" using n by simp
  have "y (r div n * n + r mod n) \<noteq> 0" using r(2) by simp
  then have "0 < (\<Sum>i<n. line_form n (\<lambda>j. y (i * n + j)))"
    using lines_pos[of n n "\<lambda>i j. y (i * n + j)" "r div n" "r mod n", OF n a i j] by simp
  moreover have eq: "(\<Sum>r<n * n. y r * (4 * y r - sum_list (map y (get_neighbors_2d r n))))
       = (\<Sum>i<n. line_form n (\<lambda>j. y (i * n + j))) + (\<Sum>j<n. line_form n (\<lambda>i. y (i * n + j)))"
    by (rule interior_form_2d) (rule van)
  ultimately show ?thesis
    unfolding eq
    using lines_nonneg[of n n "\<lambda>j i. y (i * n + j)", OF n b]
    by simp
qed

lemma assemble_2d_final:
  "\<exists>A b. assemble_2d n = (A, b) \<and> square_mat (n * n) A \<and> length b = n * n
     \<and> (\<forall>r<n * n. \<forall>c<n * n. A ! r ! c
           = final_entry (\<lambda>p. on_boundary_2d p n) (\<lambda>p. get_neighbors_2d p n) 4 r c)"
  using assemble_2d_props[of n] by blast

lemma final_2d_symmetric:
  assumes "square_mat (n * n) A"
    and "\<forall>r<n * n. \<forall>c<n * n. A ! r ! c
           = final_entry (\<lambda>p. on_boundary_2d p n) (\<lambda>p. get_neighbors_2d p n) 4 r c"
  shows "symmetric_mat A"
  unfolding symmetric_mat_def
proof (intro allI impI)
  fix p q assume "p < length A" "q < length A"
  then have pq: "p < n * n" "q < n * n" using assms(1) by (simp_all add: square_mat_def)
  have "final_entry (\<lambda>p. on_boundary_2d p n) (\<lambda>p. get_neighbors_2d p n) 4 p q
      = final_entry (\<lambda>p. on_boundary_2d p n) (\<lambda>p. get_neighbors_2d p n) 4 q p"
    by (rule final_entry_sym[OF _ pq]) (rule nb2_sym)
  then show "A ! p ! q = A ! q ! p" using assms(2) pq by simp
qed

lemma final_2d_pos_def:
  assumes n: "0 < n" and sq: "square_mat (n * n) A"
    and ent: "\<forall>r<n * n. \<forall>c<n * n. A ! r ! c
           = final_entry (\<lambda>p. on_boundary_2d p n) (\<lambda>p. get_neighbors_2d p n) 4 r c"
    and lx: "length x = n * n" and nz: "r < n * n" "x ! r \<noteq> 0"
  shows "0 < quad_form A x"
proof -
  let ?bd = "\<lambda>p. on_boundary_2d p n"
  let ?y = "masked ?bd x"
  have q: "quad_form A x = (\<Sum>r<n * n. if ?bd r then (x ! r)\<^sup>2 else 0)
         + (\<Sum>r<n * n. ?y r * (4 * ?y r - sum_list (map ?y (get_neighbors_2d r n))))"
    using quad_form_final[OF sq lx, where bd = ?bd and nb = "\<lambda>p. get_neighbors_2d p n"
        and dg = 4] ent nb2_in_range nb2_distinct nb2_irrefl by simp
  have van: "\<And>r. on_boundary_2d r n \<Longrightarrow> ?y r = 0" by (simp add: masked_def)
  show ?thesis
  proof (cases "?bd r")
    case True
    then show ?thesis unfolding q
      using boundary_part_pos[of r "n * n" ?bd x, OF nz(1) True nz(2)]
        interior_2d_nonneg[of n ?y, OF n van] by simp
  next
    case False
    then have "?y r \<noteq> 0" using nz(2) by (simp add: masked_def)
    then show ?thesis unfolding q
      using boundary_part_nonneg[where N = "n * n" and bd = ?bd and x = x]
        interior_2d_pos[of n ?y r, OF n van nz(1)] by simp
  qed
qed

lemma lin3_less:
  assumes "i < n" "j < n" "k < n" shows "i * n * n + j * n + k < n * n * (n::nat)"
proof -
  have "j * n + k < n * n" using lin2_less[OF assms(2,3)] .
  then have "i * (n * n) + (j * n + k) < i * (n * n) + n * n" by simp
  also have "\<dots> = Suc i * (n * n)" by simp
  also have "\<dots> \<le> n * (n * n)" using assms(1) by (intro mult_le_mono1) simp
  finally show ?thesis by (simp add: mult.assoc add.assoc)
qed

lemma nb3_in_range:
  assumes "r < n * n * n" shows "set (get_neighbors_3d r n) \<subseteq> {..<n * n * n}"
proof
  fix c assume "c \<in> set (get_neighbors_3d r n)"
  then have "c \<in> grid_neighbours_3d r n" using nb3_set[OF assms] by simp
  then obtain i' j' k' where "c = i' * n * n + j' * n + k'" "i' < n" "j' < n" "k' < n"
    unfolding grid_neighbours_3d_def by blast
  then show "c \<in> {..<n * n * n}" using lin3_less by simp
qed

lemma cell_form_3d:
  fixes y :: "nat \<Rightarrow> real"
  assumes i: "i < n" and j: "j < n" and k: "k < n"
    and van: "on_boundary_3d (i * n * n + j * n + k) n \<Longrightarrow> y (i * n * n + j * n + k) = 0"
  shows "y (i * n * n + j * n + k)
           * (6 * y (i * n * n + j * n + k)
              - sum_list (map y (get_neighbors_3d (i * n * n + j * n + k) n)))
       = y (i * n * n + j * n + k) * (2 * y (i * n * n + j * n + k)
             - y (i * n * n + j * n + (k - 1)) - y (i * n * n + j * n + Suc k))
       + y (i * n * n + j * n + k) * (2 * y (i * n * n + j * n + k)
             - y (i * n * n + (j - 1) * n + k) - y (i * n * n + Suc j * n + k))
       + y (i * n * n + j * n + k) * (2 * y (i * n * n + j * n + k)
             - y ((i - 1) * n * n + j * n + k) - y (Suc i * n * n + j * n + k))"
proof (cases "on_boundary_3d (i * n * n + j * n + k) n")
  case True
  then show ?thesis using van by simp
next
  case False
  then have g: "0 < k" "k < n - 1" "0 < j" "j < n - 1" "0 < i" "i < n - 1"
    using on_boundary_3d_coords[OF j k, of i] i j k by auto
  have "get_neighbors_3d (i * n * n + j * n + k) n
        = [i * n * n + j * n + (k - 1), i * n * n + j * n + (k + 1),
           i * n * n + (j - 1) * n + k, i * n * n + (j + 1) * n + k,
           (i - 1) * n * n + j * n + k, (i + 1) * n * n + j * n + k]"
    unfolding nb3_coords[OF j k] using g by simp
  then show ?thesis by (simp add: algebra_simps)
qed

lemma interior_form_3d:
  fixes y :: "nat \<Rightarrow> real"
  assumes van: "\<And>r. on_boundary_3d r n \<Longrightarrow> y r = 0"
  shows "(\<Sum>r<n * n * n. y r * (6 * y r - sum_list (map y (get_neighbors_3d r n))))
       = (\<Sum>i<n. \<Sum>j<n. line_form n (\<lambda>k. y (i * n * n + j * n + k)))
       + (\<Sum>i<n. \<Sum>k<n. line_form n (\<lambda>j. y (i * n * n + j * n + k)))
       + (\<Sum>j<n. \<Sum>k<n. line_form n (\<lambda>i. y (i * n * n + j * n + k)))"
proof -
  let ?T1 = "\<lambda>i j k. y (i * n * n + j * n + k) * (2 * y (i * n * n + j * n + k)
             - y (i * n * n + j * n + (k - 1)) - y (i * n * n + j * n + Suc k))"
  let ?T2 = "\<lambda>i j k. y (i * n * n + j * n + k) * (2 * y (i * n * n + j * n + k)
             - y (i * n * n + (j - 1) * n + k) - y (i * n * n + Suc j * n + k))"
  let ?T3 = "\<lambda>i j k. y (i * n * n + j * n + k) * (2 * y (i * n * n + j * n + k)
             - y ((i - 1) * n * n + j * n + k) - y (Suc i * n * n + j * n + k))"
  have "(\<Sum>r<n * n * n. y r * (6 * y r - sum_list (map y (get_neighbors_3d r n))))
      = (\<Sum>i<n. \<Sum>j<n. \<Sum>k<n. y (i * n * n + j * n + k)
           * (6 * y (i * n * n + j * n + k)
              - sum_list (map y (get_neighbors_3d (i * n * n + j * n + k) n))))"
    by (rule sum_grid3)
  also have "\<dots> = (\<Sum>i<n. \<Sum>j<n. \<Sum>k<n. ?T1 i j k + ?T2 i j k + ?T3 i j k)"
  proof (intro sum.cong refl)
    fix i j k assume "i \<in> {..<n}" "j \<in> {..<n}" "k \<in> {..<n}"
    then have ijk: "i < n" "j < n" "k < n" by simp_all
    show "y (i * n * n + j * n + k)
           * (6 * y (i * n * n + j * n + k)
              - sum_list (map y (get_neighbors_3d (i * n * n + j * n + k) n)))
        = ?T1 i j k + ?T2 i j k + ?T3 i j k"
      using cell_form_3d[of i n j k y] ijk van by blast
  qed
  also have "\<dots> = (\<Sum>i<n. \<Sum>j<n. \<Sum>k<n. ?T1 i j k) + (\<Sum>i<n. \<Sum>j<n. \<Sum>k<n. ?T2 i j k)
                  + (\<Sum>i<n. \<Sum>j<n. \<Sum>k<n. ?T3 i j k)"
    by (simp add: sum.distrib)
  also have "(\<Sum>i<n. \<Sum>j<n. \<Sum>k<n. ?T2 i j k) = (\<Sum>i<n. \<Sum>k<n. \<Sum>j<n. ?T2 i j k)"
    by (intro sum.cong refl sum.swap)
  also have "(\<Sum>i<n. \<Sum>j<n. \<Sum>k<n. ?T3 i j k) = (\<Sum>j<n. \<Sum>i<n. \<Sum>k<n. ?T3 i j k)"
    by (rule sum.swap)
  also have "(\<Sum>j<n. \<Sum>i<n. \<Sum>k<n. ?T3 i j k) = (\<Sum>j<n. \<Sum>k<n. \<Sum>i<n. ?T3 i j k)"
    by (intro sum.cong refl sum.swap)
  finally show ?thesis unfolding line_form_def .
qed

lemma vanish_3d_k:
  fixes y :: "nat \<Rightarrow> real"
  assumes n: "0 < n" and van: "\<And>r. on_boundary_3d r n \<Longrightarrow> y r = 0" and j: "j < n"
  shows "y (i * n * n + j * n + 0) = 0 \<and> y (i * n * n + j * n + (n - 1)) = 0"
proof -
  have m: "n - 1 < n" using n by simp
  have "on_boundary_3d (i * n * n + j * n + 0) n"
    using on_boundary_3d_coords[OF j n, of i] by simp
  moreover have "on_boundary_3d (i * n * n + j * n + (n - 1)) n"
    using on_boundary_3d_coords[OF j m, of i] by simp
  ultimately show ?thesis using van by blast
qed

lemma vanish_3d_j:
  fixes y :: "nat \<Rightarrow> real"
  assumes n: "0 < n" and van: "\<And>r. on_boundary_3d r n \<Longrightarrow> y r = 0" and k: "k < n"
  shows "y (i * n * n + 0 * n + k) = 0 \<and> y (i * n * n + (n - 1) * n + k) = 0"
proof -
  have m: "n - 1 < n" using n by simp
  have "on_boundary_3d (i * n * n + 0 * n + k) n"
    using on_boundary_3d_coords[OF n k, of i] by simp
  moreover have "on_boundary_3d (i * n * n + (n - 1) * n + k) n"
    using on_boundary_3d_coords[OF m k, of i] by simp
  ultimately show ?thesis using van by blast
qed

lemma vanish_3d_i:
  fixes y :: "nat \<Rightarrow> real"
  assumes van: "\<And>r. on_boundary_3d r n \<Longrightarrow> y r = 0" and jk: "j < n" "k < n"
  shows "y (0 * n * n + j * n + k) = 0 \<and> y ((n - 1) * n * n + j * n + k) = 0"
proof -
  have "on_boundary_3d (0 * n * n + j * n + k) n"
    using on_boundary_3d_coords[OF jk, of 0] by simp
  moreover have "on_boundary_3d ((n - 1) * n * n + j * n + k) n"
    using on_boundary_3d_coords[OF jk, of "n - 1"] by simp
  ultimately show ?thesis using van by blast
qed

lemma interior_3d_parts_nonneg:
  fixes y :: "nat \<Rightarrow> real"
  assumes n: "0 < n" and van: "\<And>r. on_boundary_3d r n \<Longrightarrow> y r = 0"
  shows "0 \<le> (\<Sum>i<n. \<Sum>j<n. line_form n (\<lambda>k. y (i * n * n + j * n + k)))"
    and "0 \<le> (\<Sum>i<n. \<Sum>k<n. line_form n (\<lambda>j. y (i * n * n + j * n + k)))"
    and "0 \<le> (\<Sum>j<n. \<Sum>k<n. line_form n (\<lambda>i. y (i * n * n + j * n + k)))"
proof -
  have v: "\<And>i j. j < n \<Longrightarrow> y (i * n * n + j * n + 0) = 0 \<and> y (i * n * n + j * n + (n - 1)) = 0"
    "\<And>i k. k < n \<Longrightarrow> y (i * n * n + 0 * n + k) = 0 \<and> y (i * n * n + (n - 1) * n + k) = 0"
    "\<And>j k. j < n \<Longrightarrow> k < n \<Longrightarrow>
           y (0 * n * n + j * n + k) = 0 \<and> y ((n - 1) * n * n + j * n + k) = 0"
    using vanish_3d_k[where y = y and n = n, OF n van]
      vanish_3d_j[where y = y and n = n, OF n van]
      vanish_3d_i[where y = y and n = n, OF van] by blast+
  show "0 \<le> (\<Sum>i<n. \<Sum>j<n. line_form n (\<lambda>k. y (i * n * n + j * n + k)))"
  proof (rule sum_nonneg)
    fix i
    show "0 \<le> (\<Sum>j<n. line_form n (\<lambda>k. y (i * n * n + j * n + k)))"
      by (rule lines_nonneg[of n n "\<lambda>j k. y (i * n * n + j * n + k)", OF n v(1)])
  qed
  show "0 \<le> (\<Sum>i<n. \<Sum>k<n. line_form n (\<lambda>j. y (i * n * n + j * n + k)))"
  proof (rule sum_nonneg)
    fix i
    show "0 \<le> (\<Sum>k<n. line_form n (\<lambda>j. y (i * n * n + j * n + k)))"
      by (rule lines_nonneg[of n n "\<lambda>k j. y (i * n * n + j * n + k)", OF n v(2)])
  qed
  show "0 \<le> (\<Sum>j<n. \<Sum>k<n. line_form n (\<lambda>i. y (i * n * n + j * n + k)))"
  proof (rule sum_nonneg)
    fix j assume "j \<in> {..<n}"
    then have j: "j < n" by simp
    show "0 \<le> (\<Sum>k<n. line_form n (\<lambda>i. y (i * n * n + j * n + k)))"
      by (rule lines_nonneg[of n n "\<lambda>k i. y (i * n * n + j * n + k)", OF n v(3)[OF j]])
  qed
qed

lemma interior_3d_nonneg:
  fixes y :: "nat \<Rightarrow> real"
  assumes n: "0 < n" and van: "\<And>r. on_boundary_3d r n \<Longrightarrow> y r = 0"
  shows "0 \<le> (\<Sum>r<n * n * n. y r * (6 * y r - sum_list (map y (get_neighbors_3d r n))))"
proof -
  have eq: "(\<Sum>r<n * n * n. y r * (6 * y r - sum_list (map y (get_neighbors_3d r n))))
       = (\<Sum>i<n. \<Sum>j<n. line_form n (\<lambda>k. y (i * n * n + j * n + k)))
       + (\<Sum>i<n. \<Sum>k<n. line_form n (\<lambda>j. y (i * n * n + j * n + k)))
       + (\<Sum>j<n. \<Sum>k<n. line_form n (\<lambda>i. y (i * n * n + j * n + k)))"
    by (rule interior_form_3d) (rule van)
  show ?thesis unfolding eq using interior_3d_parts_nonneg[of n y, OF n van] by simp
qed

lemma interior_3d_pos:
  fixes y :: "nat \<Rightarrow> real"
  assumes n: "0 < n" and van: "\<And>r. on_boundary_3d r n \<Longrightarrow> y r = 0"
    and r: "r < n * n * n" "y r \<noteq> 0"
  shows "0 < (\<Sum>r<n * n * n. y r * (6 * y r - sum_list (map y (get_neighbors_3d r n))))"
proof -
  have v: "\<And>i j. j < n \<Longrightarrow> y (i * n * n + j * n + 0) = 0 \<and> y (i * n * n + j * n + (n - 1)) = 0"
    "\<And>i k. k < n \<Longrightarrow> y (i * n * n + 0 * n + k) = 0 \<and> y (i * n * n + (n - 1) * n + k) = 0"
    "\<And>j k. j < n \<Longrightarrow> k < n \<Longrightarrow>
           y (0 * n * n + j * n + k) = 0 \<and> y ((n - 1) * n * n + j * n + k) = 0"
    using vanish_3d_k[where y = y and n = n, OF n van]
      vanish_3d_j[where y = y and n = n, OF n van]
      vanish_3d_i[where y = y and n = n, OF van] by blast+
  have eq: "(\<Sum>r<n * n * n. y r * (6 * y r - sum_list (map y (get_neighbors_3d r n))))
       = (\<Sum>i<n. \<Sum>j<n. line_form n (\<lambda>k. y (i * n * n + j * n + k)))
       + (\<Sum>i<n. \<Sum>k<n. line_form n (\<lambda>j. y (i * n * n + j * n + k)))
       + (\<Sum>j<n. \<Sum>k<n. line_form n (\<lambda>i. y (i * n * n + j * n + k)))"
    by (rule interior_form_3d) (rule van)
  let ?i = "r div (n * n)" and ?j = "r mod (n * n) div n" and ?k = "r mod n"
  have i: "?i < n" using r(1) by (simp add: less_mult_imp_div_less mult.commute)
  have j: "?j < n" using n by (simp add: less_mult_imp_div_less)
  have k: "?k < n" using n by simp
  have "y (?i * n * n + ?j * n + ?k) \<noteq> 0" using r(2) decomp3[of r n] by simp
  then have "0 < (\<Sum>j<n. line_form n (\<lambda>k. y (?i * n * n + j * n + k)))"
    using lines_pos[of n n "\<lambda>j k. y (?i * n * n + j * n + k)" ?j ?k, OF n v(1) j k] by simp
  moreover have "\<And>i. 0 \<le> (\<Sum>j<n. line_form n (\<lambda>k. y (i * n * n + j * n + k)))"
    by (rule lines_nonneg[of n n "\<lambda>j k. y (_ * n * n + j * n + k)", OF n v(1)])
  ultimately have "0 < (\<Sum>i<n. \<Sum>j<n. line_form n (\<lambda>k. y (i * n * n + j * n + k)))"
    using i sum_pos2[where I = "{..<n}" and i = ?i
        and f = "\<lambda>i. \<Sum>j<n. line_form n (\<lambda>k. y (i * n * n + j * n + k))"]
    by simp
  then show ?thesis unfolding eq using interior_3d_parts_nonneg(2,3)[of n y, OF n van] by simp
qed

lemma assemble_3d_final:
  "\<exists>A b. assemble_3d n = (A, b) \<and> square_mat (n * n * n) A \<and> length b = n * n * n
     \<and> (\<forall>r<n * n * n. \<forall>c<n * n * n. A ! r ! c
           = final_entry (\<lambda>p. on_boundary_3d p n) (\<lambda>p. get_neighbors_3d p n) 6 r c)"
  using assemble_3d_props[of n] by blast

lemma final_3d_symmetric:
  assumes "square_mat (n * n * n) A"
    and "\<forall>r<n * n * n. \<forall>c<n * n * n. A ! r ! c
           = final_entry (\<lambda>p. on_boundary_3d p n) (\<lambda>p. get_neighbors_3d p n) 6 r c"
  shows "symmetric_mat A"
  unfolding symmetric_mat_def
proof (intro allI impI)
  fix p q assume "p < length A" "q < length A"
  then have pq: "p < n * n * n" "q < n * n * n" using assms(1) by (simp_all add: square_mat_def)
  have "final_entry (\<lambda>p. on_boundary_3d p n) (\<lambda>p. get_neighbors_3d p n) 6 p q
      = final_entry (\<lambda>p. on_boundary_3d p n) (\<lambda>p. get_neighbors_3d p n) 6 q p"
    by (rule final_entry_sym[OF _ pq]) (rule nb3_sym)
  then show "A ! p ! q = A ! q ! p" using assms(2) pq by simp
qed

lemma final_3d_pos_def:
  assumes n: "0 < n" and sq: "square_mat (n * n * n) A"
    and ent: "\<forall>r<n * n * n. \<forall>c<n * n * n. A ! r ! c
           = final_entry (\<lambda>p. on_boundary_3d p n) (\<lambda>p. get_neighbors_3d p n) 6 r c"
    and lx: "length x = n * n * n" and nz: "r < n * n * n" "x ! r \<noteq> 0"
  shows "0 < quad_form A x"
proof -
  let ?bd = "\<lambda>p. on_boundary_3d p n"
  let ?y = "masked ?bd x"
  have q: "quad_form A x = (\<Sum>r<n * n * n. if ?bd r then (x ! r)\<^sup>2 else 0)
         + (\<Sum>r<n * n * n. ?y r * (6 * ?y r - sum_list (map ?y (get_neighbors_3d r n))))"
    using quad_form_final[OF sq lx, where bd = ?bd and nb = "\<lambda>p. get_neighbors_3d p n"
        and dg = 6] ent nb3_in_range nb3_distinct nb3_irrefl by simp
  have van: "\<And>r. on_boundary_3d r n \<Longrightarrow> ?y r = 0" by (simp add: masked_def)
  show ?thesis
  proof (cases "?bd r")
    case True
    then show ?thesis unfolding q
      using boundary_part_pos[of r "n * n * n" ?bd x, OF nz(1) True nz(2)]
        interior_3d_nonneg[of n ?y, OF n van] by simp
  next
    case False
    then have "?y r \<noteq> 0" using nz(2) by (simp add: masked_def)
    then show ?thesis unfolding q
      using boundary_part_nonneg[where N = "n * n * n" and bd = ?bd and x = x]
        interior_3d_pos[of n ?y r, OF n van nz(1)] by simp
  qed
qed

section \<open>The scenario n = 3, D = 2\<close>

lemma list_by_nth: "length xs = N \<Longrightarrow> xs = map (\<lambda>i. xs ! i) [0..<N]"
  by (auto intro: nth_equalityI)

lemma mat_by_entries:
  assumes "square_mat N A"
  shows "A = map (\<lambda>r. map (\<lambda>c. A ! r ! c) [0..<N]) [0..<N]"
proof (rule nth_equalityI)
  show "length A = length (map (\<lambda>r. map (\<lambda>c. A ! r ! c) [0..<N]) [0..<N])"
    using assms by (simp add: square_mat_def)
next
  fix r assume "r < length A"
  then have r: "r < N" using assms by (simp add: square_mat_def)
  have "A ! r = map (\<lambda>c. A ! r ! c) [0..<N]"
    by (rule list_by_nth[OF square_mat_row[OF assms r]])
  then show "A ! r = map (\<lambda>r. map (\<lambda>c. A ! r ! c) [0..<N]) [0..<N] ! r" using r by simp
qed

lemma upt9: "[0..<9] = [0, 1, 2, 3, 4, 5, 6, 7, 8]"
  by (simp add: upt_rec)

lemma bdry_n3: "on_boundary_2d 0 3" "on_boundary_2d 1 3" "on_boundary_2d (Suc 0) 3" "on_boundary_2d 2 3" "on_boundary_2d 3 3"
  "\<not> on_boundary_2d 4 3" "on_boundary_2d 5 3" "on_boundary_2d 6 3"
  "on_boundary_2d 7 3" "on_boundary_2d 8 3"
  by (simp_all add: on_boundary_2d_def)

lemma nbrs_n3: "get_neighbors_2d 0 3 = [1, 3]" "get_neighbors_2d 1 3 = [0, 2, 4]"
  "get_neighbors_2d (Suc 0) 3 = [0, 2, 4]"
  "get_neighbors_2d 2 3 = [1, 5]" "get_neighbors_2d 3 3 = [4, 0, 6]"
  "get_neighbors_2d 4 3 = [3, 5, 1, 7]" "get_neighbors_2d 5 3 = [4, 2, 8]"
  "get_neighbors_2d 6 3 = [7, 3]" "get_neighbors_2d 7 3 = [6, 8, 4]"
  "get_neighbors_2d 8 3 = [7, 5]"
  by (simp_all add: get_neighbors_2d_def)

lemma scenario_matrix:
  "fst (assemble_2d 3) =
     [[1, 0, 0, 0, 0, 0, 0, 0, 0],
      [0, 1, 0, 0, 0, 0, 0, 0, 0],
      [0, 0, 1, 0, 0, 0, 0, 0, 0],
      [0, 0, 0, 1, 0, 0, 0, 0, 0],
      [0, 0, 0, 0, 4, 0, 0, 0, 0],
      [0, 0, 0, 0, 0, 1, 0, 0, 0],
      [0, 0, 0, 0, 0, 0, 1, 0, 0],
      [0, 0, 0, 0, 0, 0, 0, 1, 0],
      [0, 0, 0, 0, 0, 0, 0, 0, 1]]"
proof -
  from assemble_2d_final[of 3] obtain A b where
    a: "assemble_2d 3 = (A, b)" and sq: "square_mat 9 A"
    and ent: "\<And>r c. r < 9 \<Longrightarrow> c < 9 \<Longrightarrow> A ! r ! c
           = final_entry (\<lambda>p. on_boundary_2d p 3) (\<lambda>p. get_neighbors_2d p 3) 4 r c"
    by auto
  have "A = map (\<lambda>r. map (\<lambda>c. A ! r ! c) [0..<9]) [0..<9]" by (rule mat_by_entries[OF sq])
  also have "\<dots> = map (\<lambda>r. map (\<lambda>c.
      final_entry (\<lambda>p. on_boundary_2d p 3) (\<lambda>p. get_neighbors_2d p 3) 4 r c) [0..<9]) [0..<9]"
    by (intro map_cong refl) (simp add: ent)
  also have "\<dots> = [[1, 0, 0, 0, 0, 0, 0, 0, 0],
      [0, 1, 0, 0, 0, 0, 0, 0, 0],
      [0, 0, 1, 0, 0, 0, 0, 0, 0],
      [0, 0, 0, 1, 0, 0, 0, 0, 0],
      [0, 0, 0, 0, 4, 0, 0, 0, 0],
      [0, 0, 0, 0, 0, 1, 0, 0, 0],
      [0, 0, 0, 0, 0, 0, 1, 0, 0],
      [0, 0, 0, 0, 0, 0, 0, 1, 0],
      [0, 0, 0, 0, 0, 0, 0, 0, 1]]"
    unfolding upt9 by (simp add: final_entry_def bdry_n3 nbrs_n3)
  finally show ?thesis using a by simp
qed

lemma scenario_rhs:
  "snd (assemble_2d 3) =
     [u0_2d 3 0, u0_2d 3 1, u0_2d 3 2, u0_2d 3 3,
      src_2d 3 4 + u0_2d 3 1 + u0_2d 3 3 + u0_2d 3 5 + u0_2d 3 7,
      u0_2d 3 5, u0_2d 3 6, u0_2d 3 7, u0_2d 3 8]"
proof -
  from assemble_2d_props[of 3] obtain A1 f1 bn where
    a: "assemble_2d 3 = (zero_boundary bn A1, adjust_rhs (\<lambda>p. get_neighbors_2d p 3) A1 bn f1)"
    and bn: "bn = filter (\<lambda>p. on_boundary_2d p 3) [0..<9]"
    and ent: "\<And>r c. r < 9 \<Longrightarrow> c < 9 \<Longrightarrow> A1 ! r ! c
           = first_entry (\<lambda>p. on_boundary_2d p 3) (\<lambda>p. get_neighbors_2d p 3) 4 r c"
    and lf: "length f1 = 9"
    and fv: "\<And>r. r < 9 \<Longrightarrow> f1 ! r = (if on_boundary_2d r 3 then u0_2d 3 r else src_2d 3 r)"
    by auto
  have bn': "bn = [0, 1, 2, 3, 5, 6, 7, 8]" unfolding bn upt9 by (simp add: bdry_n3)
  have "f1 = map (\<lambda>r. f1 ! r) [0..<9]" by (rule list_by_nth[OF lf])
  also have "\<dots> = map (\<lambda>r. if on_boundary_2d r 3 then u0_2d 3 r else src_2d 3 r) [0..<9]"
    by (intro map_cong refl) (simp add: fv)
  also have "\<dots> = [u0_2d 3 0, u0_2d 3 1, u0_2d 3 2, u0_2d 3 3, src_2d 3 4,
                    u0_2d 3 5, u0_2d 3 6, u0_2d 3 7, u0_2d 3 8]"
    unfolding upt9 by (simp add: bdry_n3)
  finally have f1: "f1 = [u0_2d 3 0, u0_2d 3 1, u0_2d 3 2, u0_2d 3 3, src_2d 3 4,
                    u0_2d 3 5, u0_2d 3 6, u0_2d 3 7, u0_2d 3 8]" .
  have "adjust_rhs (\<lambda>p. get_neighbors_2d p 3) A1 bn f1 =
     [u0_2d 3 0, u0_2d 3 1, u0_2d 3 2, u0_2d 3 3,
      src_2d 3 4 + u0_2d 3 1 + u0_2d 3 3 + u0_2d 3 5 + u0_2d 3 7,
      u0_2d 3 5, u0_2d 3 6, u0_2d 3 7, u0_2d 3 8]"
    unfolding adjust_rhs_def bn' f1
    by (simp add: nbrs_n3 ent first_entry_def bdry_n3)
  then show ?thesis using a by simp
qed


text \<open>
  C6.  For \<open>n = 3\<close>, \<open>D = 2\<close> the system has 9 unknowns; the 8 boundary rows are unit
  rows with right-hand side \<open>u\<^sub>0\<close> at their grid point; row 4, the one interior unknown,
  has diagonal 4 and nothing else, and its right-hand side is \<open>f(x\<^sub>4, y\<^sub>4) h\<^sup>2\<close> plus the
  boundary values of its four neighbours, so the equation of unknown 4 is the scalar
  equation \<open>4 x\<^sub>4 = f(x\<^sub>4, y\<^sub>4) h\<^sup>2 + \<Sum>u\<^sub>0\<close>.
\<close>

theorem scenario_n3_d2:
  "build_matrix_and_rhs 3 2 =
     ([],
      Some [[1, 0, 0, 0, 0, 0, 0, 0, 0],
            [0, 1, 0, 0, 0, 0, 0, 0, 0],
            [0, 0, 1, 0, 0, 0, 0, 0, 0],
            [0, 0, 0, 1, 0, 0, 0, 0, 0],
            [0, 0, 0, 0, 4, 0, 0, 0, 0],
            [0, 0, 0, 0, 0, 1, 0, 0, 0],
            [0, 0, 0, 0, 0, 0, 1, 0, 0],
            [0, 0, 0, 0, 0, 0, 0, 1, 0],
            [0, 0, 0, 0, 0, 0, 0, 0, 1]],
      Some [u0_2d 3 0, u0_2d 3 1, u0_2d 3 2, u0_2d 3 3,
            src_2d 3 4 + sum_list (map (u0_2d 3) [1, 3, 5, 7]),
            u0_2d 3 5, u0_2d 3 6, u0_2d 3 7, u0_2d 3 8])
   \<and> filter (\<lambda>p. on_boundary_2d p 3) [0..<3 * 3] = [0, 1, 2, 3, 5, 6, 7, 8]
   \<and> set (get_neighbors_2d 4 3) = {1, 3, 5, 7}
   \<and> src_2d 3 4 = f_2d (1 / 2) (1 / 2) * (1 / 4)\<^sup>2
   \<and> map (u0_2d 3) [0, 1, 2, 3, 4, 5, 6, 7, 8]
       = [sin (1 / 16), sin (1 / 8), sin (3 / 16), sin (1 / 8), sin (1 / 4), sin (3 / 8),
          sin (3 / 16), sin (3 / 8), sin (9 / 16)]
   \<and> dot [0, 0, 0, 0, 4, 0, 0, 0, 0] [x0, x1, x2, x3, x4, x5, x6, x7, x8] = 4 * x4"
proof -
  have "assemble_2d 3 = (fst (assemble_2d 3), snd (assemble_2d 3))" by simp
  then have "build_matrix_and_rhs 3 2 = ([], Some (fst (assemble_2d 3)), Some (snd (assemble_2d 3)))"
    by (simp add: build_matrix_and_rhs_def split: prod.splits)
  moreover have "filter (\<lambda>p. on_boundary_2d p 3) [0..<3 * 3] = [0, 1, 2, 3, 5, 6, 7, 8]"
    using upt9 by (simp add: bdry_n3)
  moreover have "src_2d 3 4 = f_2d (1 / 2) (1 / 2) * (1 / 4)\<^sup>2"
    by (simp add: src_2d_def spacing_of_def)
  moreover have "map (u0_2d 3) [0, 1, 2, 3, 4, 5, 6, 7, 8]
       = [sin (1 / 16), sin (1 / 8), sin (3 / 16), sin (1 / 8), sin (1 / 4), sin (3 / 8),
          sin (3 / 16), sin (3 / 8), sin (9 / 16)]"
    by (simp add: u0_2d_def spacing_of_def)
  moreover have "dot [0, 0, 0, 0, 4, 0, 0, 0, 0] [x0, x1, x2, x3, x4, x5, x6, x7, x8] = 4 * x4"
    by (simp add: dot_def)
  moreover have "set (get_neighbors_2d 4 3) = {1, 3, 5, 7}"
    by (auto simp: nbrs_n3)
  ultimately show ?thesis
    unfolding scenario_matrix scenario_rhs by simp
qed

lemma dot_scale: "dot v (map (\<lambda>t. lam * t) v) = lam * dot v v"
proof -
  have "dot v (map (\<lambda>t. lam * t) v) = (\<Sum>i<length v. v ! i * (lam * v ! i))"
    using dot_sum[of v "map (\<lambda>t. lam * t) v"] by simp
  also have "\<dots> = lam * (\<Sum>i<length v. v ! i * v ! i)"
    by (simp add: sum_distrib_left mult.left_commute)
  also have "\<dots> = lam * dot v v" using dot_sum[of v v] by simp
  finally show ?thesis .
qed

lemma dot_self_nonneg: "0 \<le> dot v v"
  using dot_sum[of v v] by (simp add: sum_nonneg)

lemma eigenvalue_pos:
  assumes "positive_definite A" "eigenpair A lam v"
  shows "0 < lam"
proof -
  have "0 < quad_form A v"
    using assms by (simp add: positive_definite_def eigenpair_def)
  also have "quad_form A v = lam * dot v v"
    using assms(2) by (simp add: quad_form_def eigenpair_def dot_scale)
  finally have "0 < lam * dot v v" .
  then show ?thesis using dot_self_nonneg[of v] by (simp add: zero_less_mult_iff)
qed

text \<open>
  C3.  For \<open>n \<ge> 1\<close> and \<open>D \<in> {2, 3}\<close> the assembled matrix is symmetric, entry by entry, and
  positive definite: \<open>x\<^sup>T A x > 0\<close> for every non-zero \<open>x\<close>, hence every eigenvalue (the
  \<open>lam\<close> of a non-zero \<open>v\<close> with \<open>A v = lam v\<close>) is strictly positive.
\<close>

theorem assembled_matrix_spd:
  assumes "1 \<le> n"
  shows "(\<exists>A b. build_matrix_and_rhs n 2 = ([], Some A, Some b) \<and> square_mat (n * n) A
            \<and> symmetric_mat A \<and> positive_definite A
            \<and> (\<forall>lam v. eigenpair A lam v \<longrightarrow> 0 < lam))
       \<and> (\<exists>A b. build_matrix_and_rhs n 3 = ([], Some A, Some b) \<and> square_mat (n * n * n) A
            \<and> symmetric_mat A \<and> positive_definite A
            \<and> (\<forall>lam v. eigenpair A lam v \<longrightarrow> 0 < lam))"
proof (intro conjI)
  have n: "0 < n" using assms by simp
  from assemble_2d_final[of n] obtain A b where
    a: "assemble_2d n = (A, b)" and sq: "square_mat (n * n) A"
    and ent: "\<forall>r<n * n. \<forall>c<n * n. A ! r ! c
           = final_entry (\<lambda>p. on_boundary_2d p n) (\<lambda>p. get_neighbors_2d p n) 4 r c"
    by blast
  have "build_matrix_and_rhs n 2 = ([], Some A, Some b)"
    by (simp add: build_matrix_and_rhs_def a)
  moreover have "symmetric_mat A" by (rule final_2d_symmetric[OF sq ent])
  moreover have pd: "positive_definite A"
    unfolding positive_definite_def square_mat_length[OF sq]
    using final_2d_pos_def[OF n sq ent] by blast
  moreover have "\<forall>lam v. eigenpair A lam v \<longrightarrow> 0 < lam"
    using eigenvalue_pos[OF pd] by blast
  ultimately show "\<exists>A b. build_matrix_and_rhs n 2 = ([], Some A, Some b) \<and> square_mat (n * n) A
            \<and> symmetric_mat A \<and> positive_definite A
            \<and> (\<forall>lam v. eigenpair A lam v \<longrightarrow> 0 < lam)"
    using sq by blast
next
  have n: "0 < n" using assms by simp
  from assemble_3d_final[of n] obtain A b where
    a: "assemble_3d n = (A, b)" and sq: "square_mat (n * n * n) A"
    and ent: "\<forall>r<n * n * n. \<forall>c<n * n * n. A ! r ! c
           = final_entry (\<lambda>p. on_boundary_3d p n) (\<lambda>p. get_neighbors_3d p n) 6 r c"
    by blast
  have "build_matrix_and_rhs n 3 = ([], Some A, Some b)"
    by (simp add: build_matrix_and_rhs_def a)
  moreover have "symmetric_mat A" by (rule final_3d_symmetric[OF sq ent])
  moreover have pd: "positive_definite A"
    unfolding positive_definite_def square_mat_length[OF sq]
    using final_3d_pos_def[OF n sq ent] by blast
  moreover have "\<forall>lam v. eigenpair A lam v \<longrightarrow> 0 < lam"
    using eigenvalue_pos[OF pd] by blast
  ultimately show "\<exists>A b. build_matrix_and_rhs n 3 = ([], Some A, Some b)
            \<and> square_mat (n * n * n) A
            \<and> symmetric_mat A \<and> positive_definite A
            \<and> (\<forall>lam v. eigenpair A lam v \<longrightarrow> 0 < lam)"
    using sq by blast
qed

theorem assembled_matrix_spd_witness:
  "(1::nat) \<le> 3 \<and> (1::nat) \<le> 1
   \<and> (\<exists>b. build_matrix_and_rhs 3 2
          = ([], Some [[1, 0, 0, 0, 0, 0, 0, 0, 0],
                       [0, 1, 0, 0, 0, 0, 0, 0, 0],
                       [0, 0, 1, 0, 0, 0, 0, 0, 0],
                       [0, 0, 0, 1, 0, 0, 0, 0, 0],
                       [0, 0, 0, 0, 4, 0, 0, 0, 0],
                       [0, 0, 0, 0, 0, 1, 0, 0, 0],
                       [0, 0, 0, 0, 0, 0, 1, 0, 0],
                       [0, 0, 0, 0, 0, 0, 0, 1, 0],
                       [0, 0, 0, 0, 0, 0, 0, 0, 1]], Some b))
   \<and> symmetric_mat (fst (assemble_2d 3)) \<and> positive_definite (fst (assemble_2d 3))
   \<and> length [0, 0, 0, 0, 1, 0, 0, 0, 0 :: real] = length (fst (assemble_2d 3))
   \<and> (\<exists>r<length (fst (assemble_2d 3)). [0, 0, 0, 0, 1, 0, 0, 0, 0 :: real] ! r \<noteq> 0)
   \<and> 0 < quad_form (fst (assemble_2d 3)) [0, 0, 0, 0, 1, 0, 0, 0, 0]
   \<and> eigenpair (fst (assemble_2d 3)) 4 [0, 0, 0, 0, 1, 0, 0, 0, 0] \<and> (0::real) < 4
   \<and> (\<exists>b. build_matrix_and_rhs 1 3 = ([], Some [[1]], Some b))
   \<and> symmetric_mat [[1]] \<and> positive_definite [[1]]
   \<and> eigenpair [[1]] 1 [1] \<and> 0 < quad_form [[1]] [1]
   \<and> (\<exists>A b. build_matrix_and_rhs 3 3 = ([], Some A, Some b)
          \<and> 0 < quad_form A (replicate 27 1))"
proof -
  let ?M = "[[1, 0, 0, 0, 0, 0, 0, 0, 0],
             [0, 1, 0, 0, 0, 0, 0, 0, 0],
             [0, 0, 1, 0, 0, 0, 0, 0, 0],
             [0, 0, 0, 1, 0, 0, 0, 0, 0],
             [0, 0, 0, 0, 4, 0, 0, 0, 0],
             [0, 0, 0, 0, 0, 1, 0, 0, 0],
             [0, 0, 0, 0, 0, 0, 1, 0, 0],
             [0, 0, 0, 0, 0, 0, 0, 1, 0],
             [0, 0, 0, 0, 0, 0, 0, 0, 1::real]]"
  let ?e = "[0, 0, 0, 0, 1, 0, 0, 0, 0 :: real]"
  note M = scenario_matrix
  \<comment> \<open>dimension 2, \<open>n = 3\<close>\<close>
  from assembled_matrix_spd[of 3] obtain A b where
    a2: "build_matrix_and_rhs 3 2 = ([], Some A, Some b)" "symmetric_mat A"
        "positive_definite A" "\<forall>lam v. eigenpair A lam v \<longrightarrow> 0 < lam"
    by auto
  have A: "A = fst (assemble_2d 3)"
    using a2(1) by (simp add: build_matrix_and_rhs_def split: prod.splits)
  have b2: "\<exists>b. build_matrix_and_rhs 3 2 = ([], Some ?M, Some b)"
    using a2(1) A M by auto
  have len: "length ?e = length (fst (assemble_2d 3))" unfolding M by simp
  have ex: "\<exists>r<length (fst (assemble_2d 3)). ?e ! r \<noteq> 0"
    unfolding M by (intro exI[of _ 4]) simp
  have q: "0 < quad_form (fst (assemble_2d 3)) ?e"
    using a2(3) len ex unfolding A positive_definite_def by blast
  have ep: "eigenpair (fst (assemble_2d 3)) 4 ?e"
    unfolding eigenpair_def using len ex by (simp add: M mat_vec_def dot_def)
  have lam: "(0::real) < 4" using a2(4) ep A by blast
  \<comment> \<open>dimension 3, \<open>n = 1\<close> and \<open>n = 3\<close>\<close>
  from assembled_matrix_spd[of 1] obtain A1 b1 where
    a3: "build_matrix_and_rhs 1 3 = ([], Some A1, Some b1)" "square_mat (1 * 1 * 1) A1"
        "symmetric_mat A1" "positive_definite A1" "\<forall>lam v. eigenpair A1 lam v \<longrightarrow> 0 < lam"
    by auto
  from assemble_3d_final[of 1] obtain A1' b1' where
    f: "assemble_3d 1 = (A1', b1')"
       "\<forall>r<1 * 1 * 1. \<forall>c<1 * 1 * 1. A1' ! r ! c
           = final_entry (\<lambda>p. on_boundary_3d p 1) (\<lambda>p. get_neighbors_3d p 1) 6 r c"
    by blast
  have "A1' = A1" using a3(1) f(1) by (simp add: build_matrix_and_rhs_def)
  then have "A1 ! 0 ! 0 = 1" using f(2) by (simp add: final_entry_def on_boundary_3d_def)
  moreover have "A1 = map (\<lambda>r. map (\<lambda>c. A1 ! r ! c) [0..<1]) [0..<1]"
    using mat_by_entries[OF a3(2)] by simp
  ultimately have A1: "A1 = [[1]]" by simp
  have ep1: "eigenpair [[1]] 1 [1]"
    by (simp add: eigenpair_def mat_vec_def dot_def)
  have q1: "0 < quad_form [[1]] [1]"
    using a3(4) unfolding A1 positive_definite_def by (simp add: exI[of _ 0])
  from assembled_matrix_spd[of 3] obtain A3 b3 where
    a33: "build_matrix_and_rhs 3 3 = ([], Some A3, Some b3)" "square_mat (3 * 3 * 3) A3"
        "positive_definite A3"
    by auto
  have "length (replicate 27 (1::real)) = length A3" using a33(2) by (simp add: square_mat_def)
  moreover have "\<exists>r<length A3. replicate 27 (1::real) ! r \<noteq> 0"
    using a33(2) by (intro exI[of _ 0]) (simp add: square_mat_def)
  ultimately have "0 < quad_form A3 (replicate 27 1)"
    using a33(3) unfolding positive_definite_def by blast
  then have q3: "\<exists>A b. build_matrix_and_rhs 3 3 = ([], Some A, Some b)
          \<and> 0 < quad_form A (replicate 27 1)"
    using a33(1) by blast
  show ?thesis
    using b2 a2(2,3) len ex q ep lam a3(1,3,4) ep1 q1 q3 unfolding A A1 by simp
qed

section \<open>Fill-in ratio\<close>

lemma count_nonzero_pos:
  assumes "r < length A" "c < length (A ! r)" "A ! r ! c \<noteq> 0"
  shows "0 < count_nonzero A"
proof -
  have "A ! r ! c \<in> set (filter (\<lambda>v. v \<noteq> 0) (A ! r))" using assms(2,3) by simp
  then have "0 < length (filter (\<lambda>v. v \<noteq> 0) (A ! r))" by (rule length_pos_if_in_set)
  moreover have "length (filter (\<lambda>v. v \<noteq> 0) (A ! r))
                 \<in> set (map (\<lambda>r. length (filter (\<lambda>v. v \<noteq> 0) r)) A)"
    using assms(1) by (auto simp: in_set_conv_nth intro!: exI[of _ r])
  ultimately have "0 < sum_list (map (\<lambda>r. length (filter (\<lambda>v. v \<noteq> 0) r)) A)"
    using member_le_sum_list[of "length (filter (\<lambda>v. v \<noteq> 0) (A ! r))"
        "map (\<lambda>r. length (filter (\<lambda>v. v \<noteq> 0) r)) A"]
    by linarith
  then show ?thesis unfolding count_nonzero_def .
qed

text \<open>A column of the factorisation writes in its own column only.\<close>

lemma fold_column_keeps:
  assumes "square_mat N L"
  shows "square_mat N (fold (\<lambda>i L. mat_set L i j (g i L)) is L)
       \<and> (\<forall>r<N. \<forall>c<N. c \<noteq> j \<longrightarrow>
             fold (\<lambda>i L. mat_set L i j (g i L)) is L ! r ! c = L ! r ! c)"
  using assms
proof (induction "is" arbitrary: L)
  case Nil
  then show ?case by simp
next
  case (Cons i "is")
  let ?L' = "mat_set L i j (g i L)"
  have sq: "square_mat N ?L'" by (rule mat_set_square[OF Cons.prems])
  have "\<forall>r<N. \<forall>c<N. c \<noteq> j \<longrightarrow> ?L' ! r ! c = L ! r ! c"
    using mat_set_nth[OF Cons.prems] by simp
  then show ?case using Cons.IH[OF sq] by simp
qed

lemma chol_column_keeps:
  assumes "square_mat N L" "chol_column A j L = Inr L'"
  shows "square_mat N L' \<and> (\<forall>r<N. \<forall>c<N. c \<noteq> j \<longrightarrow> L' ! r ! c = L ! r ! c)"
proof -
  let ?d = "A ! j ! j - (\<Sum>k\<leftarrow>[0..<j]. L ! j ! k * L ! j ! k)"
  let ?g = "\<lambda>i L. (A ! i ! j - (\<Sum>k\<leftarrow>[0..<j]. L ! i ! k * L ! j ! k)) / L ! j ! j"
  have L': "L' = fold (\<lambda>i L. mat_set L i j (?g i L)) [Suc j..<length A] (mat_set L j j (sqrt ?d))"
    using assms(2) by (simp add: chol_column_def Let_def split: if_splits)
  have sq1: "square_mat N (mat_set L j j (sqrt ?d))" by (rule mat_set_square[OF assms(1)])
  have k1: "\<forall>r<N. \<forall>c<N. c \<noteq> j \<longrightarrow> mat_set L j j (sqrt ?d) ! r ! c = L ! r ! c"
    using mat_set_nth[OF assms(1)] by simp
  show ?thesis unfolding L'
    using fold_column_keeps[OF sq1, of j ?g "[Suc j..<length A]"] k1 by simp
qed

lemma chol_columns_keeps:
  assumes "square_mat N L" "chol_columns A js L = Inr L'" "\<forall>j \<in> set js. j \<noteq> c" "r < N" "c < N"
  shows "square_mat N L' \<and> L' ! r ! c = L ! r ! c"
  using assms(1,2,3)
proof (induction js arbitrary: L)
  case Nil
  then show ?case by simp
next
  case (Cons j js)
  from Cons.prems(2) obtain L1 where
    c: "chol_column A j L = Inr L1" and r: "chol_columns A js L1 = Inr L'"
    by (auto split: sum.splits)
  have k: "square_mat N L1" "L1 ! r ! c = L ! r ! c"
    using chol_column_keeps[OF Cons.prems(1) c] Cons.prems(3) assms(4,5) by auto
  show ?case using Cons.IH[OF k(1) r] Cons.prems(3) k(2) by simp
qed

lemma chol_column_first:
  assumes "square_mat N L" "0 < N" "chol_column A 0 L = Inr L'"
  shows "square_mat N L' \<and> 0 < L' ! 0 ! 0"
proof -
  let ?g = "\<lambda>i L. (A ! i ! 0 - (\<Sum>k\<leftarrow>[0..<0]. L ! i ! k * L ! 0 ! k)) / L ! 0 ! 0"
  have d: "0 < A ! 0 ! 0"
    using assms(3) by (simp add: chol_column_def Let_def split: if_splits)
  have L': "L' = fold (\<lambda>i L. mat_set L i 0 (?g i L)) [Suc 0..<length A]
                   (mat_set L 0 0 (sqrt (A ! 0 ! 0)))"
    using assms(3) by (simp add: chol_column_def Let_def split: if_splits)
  have sq1: "square_mat N (mat_set L 0 0 (sqrt (A ! 0 ! 0)))" by (rule mat_set_square[OF assms(1)])
  have e1: "mat_set L 0 0 (sqrt (A ! 0 ! 0)) ! 0 ! 0 = sqrt (A ! 0 ! 0)"
    using mat_set_nth[OF assms(1,2,2)] by simp
  have "square_mat N (fold (\<lambda>i L. mat_set L i 0 (?g i L)) is M)
        \<and> fold (\<lambda>i L. mat_set L i 0 (?g i L)) is M ! 0 ! 0 = M ! 0 ! 0"
    if "square_mat N M" "\<forall>i \<in> set is. i \<noteq> 0" for "is" M
    using that
  proof (induction "is" arbitrary: M)
    case Nil
    then show ?case by simp
  next
    case (Cons i "is")
    have sq: "square_mat N (mat_set M i 0 (?g i M))" by (rule mat_set_square[OF Cons.prems(1)])
    have "mat_set M i 0 (?g i M) ! 0 ! 0 = M ! 0 ! 0"
      using mat_set_nth[OF Cons.prems(1) assms(2,2)] Cons.prems(2) by simp
    then show ?case using Cons.IH[OF sq] Cons.prems(2) by simp
  qed
  from this[OF sq1, of "[Suc 0..<length A]"] show ?thesis
    unfolding L' using e1 d by simp
qed

lemma cholesky_first_entry:
  assumes "0 < length A" "cholesky A = Inr L"
  shows "square_mat (length A) L \<and> 0 < L ! 0 ! 0"
proof -
  let ?N = "length A"
  have u: "[0..<?N] = 0 # [Suc 0..<?N]" using assms(1) by (simp add: upt_conv_Cons)
  from assms(2) obtain L1 where
    c: "chol_column A 0 (lil_matrix ?N) = Inr L1"
    and r: "chol_columns A [Suc 0..<?N] L1 = Inr L"
    unfolding cholesky_def u by (auto split: sum.splits)
  have f: "square_mat ?N L1" "0 < L1 ! 0 ! 0"
    using chol_column_first[OF lil_matrix_square assms(1) c] by simp_all
  have "square_mat ?N L \<and> L ! 0 ! 0 = L1 ! 0 ! 0"
    by (rule chol_columns_keeps[OF f(1) r _ assms(1) assms(1)]) simp
  then show ?thesis using f(2) by simp
qed

lemma cholesky_count_pos:
  assumes "0 < length A" "cholesky A = Inr L"
  shows "0 < count_nonzero L"
proof -
  have s: "square_mat (length A) L" "0 < L ! 0 ! 0"
    using cholesky_first_entry[OF assms] by simp_all
  have "0 < length L" "0 < length (L ! 0)"
    using s(1) assms(1) square_mat_row[OF s(1) assms(1)] by (simp_all add: square_mat_def)
  then show ?thesis
    using s(2) by (intro count_nonzero_pos[of 0 L 0]) simp_all
qed

lemma built_matrix_nnz_pos:
  assumes "1 \<le> n" "build_matrix_and_rhs n d = (out, Some A, r)"
  shows "0 < length A \<and> 0 < nnz A"
proof -
  have n: "0 < n" using assms(1) by simp
  have d: "d = 2 \<or> d = 3"
    using assms(2) by (auto simp: build_matrix_and_rhs_def split: if_splits)
  then show ?thesis
  proof
    assume d2: "d = 2"
    from assemble_2d_final[of n] obtain A' b where
      a: "assemble_2d n = (A', b)" and sq: "square_mat (n * n) A'"
      and ent: "\<forall>r<n * n. \<forall>c<n * n. A' ! r ! c
           = final_entry (\<lambda>p. on_boundary_2d p n) (\<lambda>p. get_neighbors_2d p n) 4 r c"
      by blast
    have A: "A = A'" using assms(2) d2 a by (simp add: build_matrix_and_rhs_def)
    have N: "0 < n * n" using n by simp
    have "A' ! 0 ! 0 = 1" using ent N by (simp add: final_entry_def on_boundary_2d_def)
    moreover have "0 < length A'" "0 < length (A' ! 0)"
      using sq N square_mat_row[OF sq N] by (simp_all add: square_mat_def)
    ultimately have "0 < count_nonzero A'"
      by (intro count_nonzero_pos[of 0 A' 0]) simp_all
    then show ?thesis using A sq N by (simp add: nnz_def square_mat_def)
  next
    assume d3: "d = 3"
    from assemble_3d_final[of n] obtain A' b where
      a: "assemble_3d n = (A', b)" and sq: "square_mat (n * n * n) A'"
      and ent: "\<forall>r<n * n * n. \<forall>c<n * n * n. A' ! r ! c
           = final_entry (\<lambda>p. on_boundary_3d p n) (\<lambda>p. get_neighbors_3d p n) 6 r c"
      by blast
    have A: "A = A'" using assms(2) d3 a by (simp add: build_matrix_and_rhs_def)
    have N: "0 < n * n * n" using n by simp
    have "A' ! 0 ! 0 = 1" using ent N by (simp add: final_entry_def on_boundary_3d_def)
    moreover have "0 < length A'" "0 < length (A' ! 0)"
      using sq N square_mat_row[OF sq N] by (simp_all add: square_mat_def)
    ultimately have "0 < count_nonzero A'"
      by (intro count_nonzero_pos[of 0 A' 0]) simp_all
    then show ?thesis using A sq N by (simp add: nnz_def square_mat_def)
  qed
qed

lemma Problem_init_fields:
  assumes "Problem_init rcm n d = (out, Inr P)"
  shows "\<exists>b. build_matrix_and_rhs n d = (out, Some (matrix P), Some b) \<and> rhs P = b
           \<and> reorder rcm (Some (matrix P)) = Inr (reordered_matrix P)
           \<and> cholesky (matrix P) = Inr (cholesky_factor P)
           \<and> cholesky (reordered_matrix P) = Inr (cholesky_factor_reorderd P)
           \<and> n_elements P = n \<and> dimension P = d"
  using assms unfolding Problem_init_def
  by (auto split: prod.splits sum.splits option.splits)

(* the instance n = 4, D = 2 *)

lemma upt16: "[0..<16] = [0, 1, 2, 3, 4, 5, 6, 7, 8, 9, 10, 11, 12, 13, 14, 15]"
  by (simp add: upt_rec)

lemma bdry_n4: "map (\<lambda>p. on_boundary_2d p 4) [0, 1, 2, 3, 4, 5, 6, 7, 8, 9, 10, 11, 12, 13, 14, 15]
  = [True, True, True, True, True, False, False, True, True, False, False, True, True, True, True, True]"
  by (simp add: on_boundary_2d_def)

lemma nbrs_n4: "map (\<lambda>p. get_neighbors_2d p 4) [5, 6, 9, 10]
   = [[4, 6, 1, 9], [5, 7, 2, 10], [8, 10, 5, 13], [9, 11, 6, 14]]"
  by (simp add: get_neighbors_2d_def)

lemma matrix_n4: "fst (assemble_2d 4) = matrix_n4"
proof -
  from assemble_2d_final[of 4] obtain A b where
    a: "assemble_2d 4 = (A, b)" and sq: "square_mat 16 A"
    and ent: "\<And>r c. r < 16 \<Longrightarrow> c < 16 \<Longrightarrow> A ! r ! c
           = final_entry (\<lambda>p. on_boundary_2d p 4) (\<lambda>p. get_neighbors_2d p 4) 4 r c"
    by auto
  have "A = map (\<lambda>r. map (\<lambda>c. A ! r ! c) [0..<16]) [0..<16]" by (rule mat_by_entries[OF sq])
  also have "\<dots> = map (\<lambda>r. map (\<lambda>c.
      final_entry (\<lambda>p. on_boundary_2d p 4) (\<lambda>p. get_neighbors_2d p 4) 4 r c) [0..<16]) [0..<16]"
    by (intro map_cong refl) (simp add: ent)
  also have "\<dots> = matrix_n4"
    unfolding upt16 matrix_n4_def using bdry_n4 nbrs_n4 by (simp add: final_entry_def)
  finally show ?thesis using a by simp
qed

lemma sqrt_15_4: "sqrt (15 / 4) * (4 * sqrt (15 / 4)) = 15"
proof -
  define s :: real where "s = sqrt (15 / 4)"
  have "s * s = \<bar>15 / 4\<bar>" unfolding s_def by (rule real_sqrt_mult_self)
  then have "s * s = 15 / 4" by simp
  then have "s * (4 * s) = 15" by (simp add: mult.left_commute)
  then show ?thesis unfolding s_def .
qed

lemma reorder_n4: "reorder rcm_n4 (Some matrix_n4) = Inr reordered_n4"
  by (simp add: reorder_def rcm_n4_def matrix_n4_def reordered_n4_def)

lemma cholesky_n4: "cholesky matrix_n4 = Inr factor_n4"
  unfolding matrix_n4_def factor_n4_def
  by (simp add: cholesky_def chol_column_def lil_matrix_def mat_set_def upt_rec Let_def sqrt_15_4)

lemma cholesky_reordered_n4: "cholesky reordered_n4 = Inr factor_reordered_n4"
  unfolding reordered_n4_def factor_reordered_n4_def
  by (simp add: cholesky_def chol_column_def lil_matrix_def mat_set_def upt_rec Let_def sqrt_15_4)

lemma counts_n4:
  "nnz matrix_n4 = 24" "count_nonzero factor_n4 = 21"
  "nnz reordered_n4 = 24" "count_nonzero factor_reordered_n4 = 21"
  by (simp_all add: nnz_def count_nonzero_def matrix_n4_def factor_n4_def reordered_n4_def
      factor_reordered_n4_def)

lemma problem_n4_init: "Problem_init rcm_n4 4 2 = ([], Inr problem_n4)"
proof -
  have "build_matrix_and_rhs 4 2
        = ([], Some (fst (assemble_2d 4)), Some (snd (assemble_2d 4)))"
    by (simp add: build_matrix_and_rhs_def split: prod.splits)
  then have "build_matrix_and_rhs 4 2 = ([], Some matrix_n4, Some (snd (assemble_2d 4)))"
    unfolding matrix_n4 .
  then show ?thesis
    by (simp add: Problem_init_def reorder_n4 cholesky_n4 cholesky_reordered_n4 problem_n4_def)
qed

text \<open>
  C1.  With \<open>reorder=True\<close> the specification asks for the non-zeros of the factor of the
  reordered matrix over the non-zeros of the reordered matrix.  On \<open>Problem(4, 2)\<close> that
  quotient is \<open>21 / 24\<close>; the source divides the non-zeros of the reordered matrix by
  themselves and returns \<open>1\<close>.
\<close>

theorem fill_in_ratio_reordered_n4:
  "Problem_init rcm_n4 4 2 = ([], Inr problem_n4)
   \<and> fill_in_ratio problem_n4 True = Inr (Finite 1)
   \<and> spec_fill_in_ratio problem_n4 True = Inr (Finite (7 / 8))
   \<and> real (count_nonzero (cholesky_factor_reorderd problem_n4))
       / real (nnz (reordered_matrix problem_n4)) = 7 / 8"
  using problem_n4_init
  by (simp add: fill_in_ratio_def spec_fill_in_ratio_def problem_n4_def counts_n4)

text \<open>
  C8, as stated, fails: without reordering, \<open>Problem(4, 2)\<close> has a factor with 21
  non-zeros (the lower triangle with one fill-in entry) and a matrix with 24, so the
  ratio is \<open>7 / 8 < 1\<close>.
\<close>

theorem fill_in_ratio_below_one_n4:
  "Problem_init rcm_n4 4 2 = ([], Inr problem_n4)
   \<and> fill_in_ratio problem_n4 False = Inr (Finite (7 / 8)) \<and> \<not> (1 :: real) \<le> 7 / 8"
  using problem_n4_init
  by (simp add: fill_in_ratio_def problem_n4_def counts_n4)

text \<open>
  C8, amended.  For every successfully constructed problem with \<open>n \<ge> 1\<close>, \<open>fill_in_ratio\<close>
  without reordering returns the non-zeros of the factor over the non-zeros of the matrix,
  a strictly positive scalar.
\<close>

theorem fill_in_ratio_unreordered_positive:
  assumes "1 \<le> n" and "Problem_init rcm n d = (out, Inr P)"
  shows "fill_in_ratio P False
           = Inr (Finite (real (count_nonzero (cholesky_factor P)) / real (nnz (matrix P))))
       \<and> 0 < real (count_nonzero (cholesky_factor P)) / real (nnz (matrix P))"
proof -
  from Problem_init_fields[OF assms(2)] obtain b where
    f: "build_matrix_and_rhs n d = (out, Some (matrix P), Some b)"
       "cholesky (matrix P) = Inr (cholesky_factor P)"
    by blast
  have m: "0 < length (matrix P)" "0 < nnz (matrix P)"
    using built_matrix_nnz_pos[OF assms(1) f(1)] by simp_all
  have c: "0 < count_nonzero (cholesky_factor P)"
    by (rule cholesky_count_pos[OF m(1) f(2)])
  show ?thesis using m(2) c by (simp add: fill_in_ratio_def)
qed

theorem fill_in_ratio_unreordered_positive_witness:
  "(1::nat) \<le> 4 \<and> Problem_init rcm_n4 4 2 = ([], Inr problem_n4)
   \<and> count_nonzero (cholesky_factor problem_n4) = 21 \<and> nnz (matrix problem_n4) = 24
   \<and> fill_in_ratio problem_n4 False = Inr (Finite (21 / 24)) \<and> (0::real) < 21 / 24"
  using fill_in_ratio_unreordered_positive[of 4 rcm_n4 2 "[]" problem_n4] problem_n4_init
  by (simp add: problem_n4_def counts_n4)

(* end of the instance n = 4, D = 2 *)

section \<open>Reordering\<close>

text \<open>A matrix read through a permutation of its indices.\<close>

lemma perm_length:
  assumes "distinct order" "set order = {..<N}" shows "length order = N"
  using distinct_card[OF assms(1)] assms(2) by simp

lemma perm_bij:
  assumes "distinct order" "set order = {..<N}"
  shows "bij_betw (\<lambda>a. order ! a) {..<N} {..<N}"
proof -
  have l: "length order = N" by (rule perm_length[OF assms])
  have "bij_betw ((!) order) {..<N} {..<N}"
    by (rule bij_betw_nth[OF assms(1)]) (simp_all only: l assms(2))
  then show ?thesis .
qed

lemma reorder_entries:
  assumes "A \<noteq> []" "length (rcm A) = N"
  shows "\<exists>R. reorder rcm (Some A) = Inr R \<and> square_mat N R
           \<and> (\<forall>a<N. \<forall>b<N. R ! a ! b = A ! (rcm A ! a) ! (rcm A ! b))"
proof -
  let ?R = "map (\<lambda>r. map (\<lambda>b. r ! b) (rcm A)) (map (\<lambda>a. A ! a) (rcm A))"
  have "reorder rcm (Some A) = Inr ?R" using assms(1) by (simp add: reorder_def Let_def)
  moreover have "square_mat N ?R" using assms(2) by (auto simp: square_mat_def)
  moreover have "\<forall>a<N. \<forall>b<N. ?R ! a ! b = A ! (rcm A ! a) ! (rcm A ! b)"
    using assms(2) by simp
  ultimately show ?thesis by blast
qed

lemma permuted_symmetric:
  assumes sqA: "square_mat N A" and sqR: "square_mat N R"
    and bij: "bij_betw p {..<N} {..<N}"
    and ent: "\<And>a b. a < N \<Longrightarrow> b < N \<Longrightarrow> R ! a ! b = A ! (p a) ! (p b)"
    and sym: "symmetric_mat A"
  shows "symmetric_mat R"
  unfolding symmetric_mat_def
proof (intro allI impI)
  fix a b assume "a < length R" "b < length R"
  then have ab: "a < N" "b < N" using sqR by (simp_all add: square_mat_def)
  then have "p a < N" "p b < N" using bij by (auto simp: bij_betw_def)
  then have "A ! (p a) ! (p b) = A ! (p b) ! (p a)"
    using sym sqA by (simp add: symmetric_mat_def square_mat_def)
  then show "R ! a ! b = R ! b ! a" using ent ab by simp
qed

lemma permuted_mat_vec:
  assumes sqA: "square_mat N A" and sqR: "square_mat N R"
    and bij: "bij_betw p {..<N} {..<N}"
    and ent: "\<And>a b. a < N \<Longrightarrow> b < N \<Longrightarrow> R ! a ! b = A ! (p a) ! (p b)"
    and lv: "length v = N"
  shows "mat_vec R (map (\<lambda>a. v ! p a) [0..<N]) = map (\<lambda>a. mat_vec A v ! p a) [0..<N]"
proof (rule nth_equalityI)
  show "length (mat_vec R (map (\<lambda>a. v ! p a) [0..<N])) = length (map (\<lambda>a. mat_vec A v ! p a) [0..<N])"
    using sqR by (simp add: length_mat_vec square_mat_def)
next
  fix a assume "a < length (mat_vec R (map (\<lambda>a. v ! p a) [0..<N]))"
  then have a: "a < N" using sqR by (simp add: length_mat_vec square_mat_def)
  then have pa: "p a < N" using bij by (auto simp: bij_betw_def)
  have "mat_vec R (map (\<lambda>a. v ! p a) [0..<N]) ! a
        = (\<Sum>b<N. R ! a ! b * map (\<lambda>a. v ! p a) [0..<N] ! b)"
    by (rule mat_vec_nth[OF sqR _ a]) simp
  also have "\<dots> = (\<Sum>b<N. A ! (p a) ! (p b) * v ! (p b))"
    using a by (intro sum.cong) (simp_all add: ent)
  also have "\<dots> = (\<Sum>c<N. A ! (p a) ! c * v ! c)"
    by (rule sum.reindex_bij_betw[OF bij])
  also have "\<dots> = mat_vec A v ! p a"
    by (rule mat_vec_nth[OF sqA lv pa, symmetric])
  finally show "mat_vec R (map (\<lambda>a. v ! p a) [0..<N]) ! a = map (\<lambda>a. mat_vec A v ! p a) [0..<N] ! a"
    using a by simp
qed

lemma permuted_quad_form:
  assumes sqA: "square_mat N A" and sqR: "square_mat N R"
    and bij: "bij_betw p {..<N} {..<N}"
    and ent: "\<And>a b. a < N \<Longrightarrow> b < N \<Longrightarrow> R ! a ! b = A ! (p a) ! (p b)"
    and lv: "length v = N"
  shows "quad_form R (map (\<lambda>a. v ! p a) [0..<N]) = quad_form A v"
proof -
  let ?w = "map (\<lambda>a. v ! p a) [0..<N]"
  have lA: "length (mat_vec A v) = N" using sqA by (simp add: length_mat_vec square_mat_def)
  have "quad_form R ?w = dot ?w (map (\<lambda>a. mat_vec A v ! p a) [0..<N])"
    by (simp only: quad_form_def permuted_mat_vec[OF assms])
  also have "\<dots> = (\<Sum>a<N. v ! p a * mat_vec A v ! p a)"
    using dot_sum[of ?w "map (\<lambda>a. mat_vec A v ! p a) [0..<N]"] by simp
  also have "\<dots> = (\<Sum>c<N. v ! c * mat_vec A v ! c)"
    by (rule sum.reindex_bij_betw[OF bij])
  also have "\<dots> = quad_form A v"
    unfolding quad_form_def using dot_sum[of v "mat_vec A v"] lv lA by simp
  finally show ?thesis .
qed

lemma permuted_nonzero:
  fixes v :: vec
  assumes bij: "bij_betw p {..<N} {..<N}" and nz: "r < N" "v ! r \<noteq> 0"
  shows "\<exists>a<N. map (\<lambda>a. v ! p a) [0..<N] ! a \<noteq> 0"
proof -
  from bij nz(1) obtain a where "a < N" "p a = r"
    by (auto simp: bij_betw_def image_iff) (metis imageE lessThan_iff)
  then show ?thesis using nz(2) by (intro exI[of _ a]) simp
qed

lemma permuted_pos_def:
  assumes sqA: "square_mat N A" and sqR: "square_mat N R"
    and bij: "bij_betw p {..<N} {..<N}"
    and ent: "\<And>a b. a < N \<Longrightarrow> b < N \<Longrightarrow> R ! a ! b = A ! (p a) ! (p b)"
    and pd: "positive_definite R"
  shows "positive_definite A"
  unfolding positive_definite_def
proof (intro allI impI)
  fix v :: vec assume "length v = length A \<and> (\<exists>r<length A. v ! r \<noteq> 0)"
  then have lv: "length v = N" and ex: "\<exists>r<N. v ! r \<noteq> 0"
    using sqA by (simp_all add: square_mat_def)
  let ?w = "map (\<lambda>a. v ! p a) [0..<N]"
  have "length ?w = length R" using sqR by (simp add: square_mat_def)
  moreover have "\<exists>a<length R. ?w ! a \<noteq> 0"
  proof -
    from ex obtain r where "r < N" "v ! r \<noteq> 0" by blast
    then have "\<exists>a<N. ?w ! a \<noteq> 0" using permuted_nonzero[OF bij, of r v] by blast
    then show ?thesis using sqR by (simp add: square_mat_def)
  qed
  ultimately have "0 < quad_form R ?w" using pd unfolding positive_definite_def by blast
  moreover have "quad_form R ?w = quad_form A v"
    using permuted_quad_form[OF sqA sqR bij _ lv] ent by blast
  ultimately show "0 < quad_form A v" by simp
qed

lemma permuted_eigenpair:
  assumes sqA: "square_mat N A" and sqR: "square_mat N R"
    and bij: "bij_betw p {..<N} {..<N}"
    and ent: "\<And>a b. a < N \<Longrightarrow> b < N \<Longrightarrow> R ! a ! b = A ! (p a) ! (p b)"
    and ep: "eigenpair A lam v"
  shows "eigenpair R lam (map (\<lambda>a. v ! p a) [0..<N])"
proof -
  have lv: "length v = N" and ex: "\<exists>r<N. v ! r \<noteq> 0"
    and av: "mat_vec A v = map (\<lambda>t. lam * t) v"
    using ep sqA by (simp_all add: eigenpair_def square_mat_def)
  let ?w = "map (\<lambda>a. v ! p a) [0..<N]"
  have pl: "\<And>a. a < N \<Longrightarrow> p a < N" using bij by (auto simp: bij_betw_def)
  have "mat_vec R ?w = map (\<lambda>a. mat_vec A v ! p a) [0..<N]"
    by (rule permuted_mat_vec[OF sqA sqR bij ent lv])
  also have "\<dots> = map (\<lambda>t. lam * t) ?w"
    using pl lv by (simp add: av)
  finally have "mat_vec R ?w = map (\<lambda>t. lam * t) ?w" .
  moreover have "length ?w = length R" using sqR by (simp add: square_mat_def)
  moreover have "\<exists>a<length R. ?w ! a \<noteq> 0"
  proof -
    from ex obtain r where "r < N" "v ! r \<noteq> 0" by blast
    then have "\<exists>a<N. ?w ! a \<noteq> 0" using permuted_nonzero[OF bij, of r v] by blast
    then show ?thesis using sqR by (simp add: square_mat_def)
  qed
  ultimately show ?thesis unfolding eigenpair_def by blast
qed

text \<open>The inverse permutation reads the original matrix off the reordered one.\<close>

lemma permuted_inverse:
  assumes bij: "bij_betw p {..<N} {..<N}"
    and ent: "\<And>a b. a < N \<Longrightarrow> b < N \<Longrightarrow> R ! a ! b = A ! (p a) ! (p b)"
  shows "bij_betw (the_inv_into {..<N} p) {..<N} {..<N}"
    and "\<And>c d. c < N \<Longrightarrow> d < N \<Longrightarrow>
           A ! c ! d = R ! (the_inv_into {..<N} p c) ! (the_inv_into {..<N} p d)"
    and "\<And>c. c < N \<Longrightarrow> p (the_inv_into {..<N} p c) = c"
    and "\<And>a. a < N \<Longrightarrow> the_inv_into {..<N} p (p a) = a"
proof -
  let ?q = "the_inv_into {..<N} p"
  show b: "bij_betw ?q {..<N} {..<N}" by (rule bij_betw_the_inv_into[OF bij])
  show pq: "\<And>c. c < N \<Longrightarrow> p (?q c) = c"
    using f_the_inv_into_f_bij_betw[OF bij] by simp
  show "\<And>a. a < N \<Longrightarrow> ?q (p a) = a"
    using the_inv_into_f_f[of p "{..<N}"] bij by (simp add: bij_betw_def)
  show "\<And>c d. c < N \<Longrightarrow> d < N \<Longrightarrow> A ! c ! d = R ! (?q c) ! (?q d)"
  proof -
    fix c d assume cd: "c < N" "d < N"
    then have "?q c < N" "?q d < N" using b by (auto simp: bij_betw_def)
    then show "A ! c ! d = R ! (?q c) ! (?q d)" using ent pq cd by simp
  qed
qed

lemma permuted_injective:
  fixes v v' :: vec
  assumes bij: "bij_betw p {..<N} {..<N}" and lv: "length v = N" "length v' = N"
    and eq: "map (\<lambda>a. v ! p a) [0..<N] = map (\<lambda>a. v' ! p a) [0..<N]"
  shows "v = v'"
proof (rule nth_equalityI)
  show "length v = length v'" using lv by simp
next
  fix c assume "c < length v"
  then have c: "c < N" using lv by simp
  from bij c obtain a where a: "a < N" "p a = c"
    by (auto simp: bij_betw_def) (metis imageE lessThan_iff)
  have "map (\<lambda>a. v ! p a) [0..<N] ! a = map (\<lambda>a. v' ! p a) [0..<N] ! a"
    by (simp only: eq)
  then show "v ! c = v' ! c" using a by simp
qed

lemma permuted_back:
  fixes w :: vec
  assumes bij: "bij_betw p {..<N} {..<N}" and lw: "length w = N"
  shows "map (\<lambda>a. map (\<lambda>c. w ! the_inv_into {..<N} p c) [0..<N] ! p a) [0..<N] = w"
proof (rule nth_equalityI)
  show "length (map (\<lambda>a. map (\<lambda>c. w ! the_inv_into {..<N} p c) [0..<N] ! p a) [0..<N]) = length w"
    using lw by simp
next
  fix a assume "a < length (map (\<lambda>a. map (\<lambda>c. w ! the_inv_into {..<N} p c) [0..<N] ! p a) [0..<N])"
  then have a: "a < N" by simp
  then have pa: "p a < N" using bij by (auto simp: bij_betw_def)
  have "the_inv_into {..<N} p (p a) = a"
    using the_inv_into_f_f[of p "{..<N}" a] bij a by (simp add: bij_betw_def)
  then show "map (\<lambda>a. map (\<lambda>c. w ! the_inv_into {..<N} p c) [0..<N] ! p a) [0..<N] ! a = w ! a"
    using a pa by simp
qed

text \<open>
  C7.  When the library's ordering is a permutation of the unknowns, \<open>reorder\<close> returns the
  matrix \<open>A'\<close> with \<open>A'[a, b] = A[\<pi> a, \<pi> b]\<close> for a bijection \<open>\<pi>\<close> of the indices.  So \<open>A'\<close>
  is symmetric when \<open>A\<close> is, positive definite exactly when \<open>A\<close> is, and \<open>v \<mapsto> v \<circ> \<pi>\<close> maps
  the eigenvectors of \<open>A\<close> for each eigenvalue one-to-one onto those of \<open>A'\<close>.  The
  constructed object keeps the assembled matrix and right-hand side as they were, next to
  the reordered matrix.
\<close>

theorem reorder_symmetric_permutation:
  assumes "square_mat N A" and "0 < N" and "distinct (rcm A)" and "set (rcm A) = {..<N}"
  shows "\<exists>R p. reorder rcm (Some A) = Inr R \<and> square_mat N R
           \<and> bij_betw p {..<N} {..<N}
           \<and> (\<forall>a<N. \<forall>b<N. R ! a ! b = A ! p a ! p b)
           \<and> (symmetric_mat A \<longrightarrow> symmetric_mat R)
           \<and> (positive_definite A \<longleftrightarrow> positive_definite R)
           \<and> (\<forall>lam v. eigenpair A lam v \<longrightarrow> eigenpair R lam (map (\<lambda>a. v ! p a) [0..<N]))
           \<and> (\<forall>lam w. eigenpair R lam w \<longrightarrow>
                 (\<exists>v. eigenpair A lam v \<and> w = map (\<lambda>a. v ! p a) [0..<N]))
           \<and> (\<forall>(v::vec) v'. length v = N \<and> length v' = N
                  \<and> map (\<lambda>a. v ! p a) [0..<N] = map (\<lambda>a. v' ! p a) [0..<N] \<longrightarrow> v = v')
           \<and> (\<forall>n d out P. Problem_init rcm n d = (out, Inr P) \<and> matrix P = A \<longrightarrow>
                  build_matrix_and_rhs n d = (out, Some A, Some (rhs P))
                \<and> reordered_matrix P = R)"
proof -
  let ?p = "\<lambda>a. rcm A ! a"
  let ?q = "the_inv_into {..<N} ?p"
  have ne: "A \<noteq> []" using assms(1,2) by (auto simp: square_mat_def)
  have len: "length (rcm A) = N" by (rule perm_length[OF assms(3,4)])
  from reorder_entries[of A rcm N] ne len obtain R where
    R: "reorder rcm (Some A) = Inr R" and sqR: "square_mat N R"
    and ent: "\<And>a b. a < N \<Longrightarrow> b < N \<Longrightarrow> R ! a ! b = A ! ?p a ! ?p b"
    by blast
  have bij: "bij_betw ?p {..<N} {..<N}" by (rule perm_bij[OF assms(3,4)])
  note inv = permuted_inverse[of ?p N R A, OF bij ent]
  have sym: "symmetric_mat A \<longrightarrow> symmetric_mat R"
    using permuted_symmetric[OF assms(1) sqR bij ent] by blast
  have pd: "positive_definite A \<longleftrightarrow> positive_definite R"
    using permuted_pos_def[OF assms(1) sqR bij ent]
          permuted_pos_def[OF sqR assms(1) inv(1) inv(2)] by blast
  have fwd: "\<forall>lam v. eigenpair A lam v \<longrightarrow> eigenpair R lam (map (\<lambda>a. v ! ?p a) [0..<N])"
    using permuted_eigenpair[OF assms(1) sqR bij ent] by blast
  have bwd: "\<forall>lam w. eigenpair R lam w \<longrightarrow>
                 (\<exists>v. eigenpair A lam v \<and> w = map (\<lambda>a. v ! ?p a) [0..<N])"
  proof (intro allI impI)
    fix lam w assume ep: "eigenpair R lam w"
    let ?v = "map (\<lambda>c. w ! ?q c) [0..<N]"
    have lw: "length w = N" using ep sqR by (simp add: eigenpair_def square_mat_def)
    have "eigenpair A lam ?v"
      by (rule permuted_eigenpair[OF sqR assms(1) inv(1) inv(2) ep])
    moreover have "w = map (\<lambda>a. ?v ! ?p a) [0..<N]"
      using permuted_back[OF bij lw] by simp
    ultimately show "\<exists>v. eigenpair A lam v \<and> w = map (\<lambda>a. v ! ?p a) [0..<N]" by blast
  qed
  have inj: "\<forall>(v::vec) v'. length v = N \<and> length v' = N
                  \<and> map (\<lambda>a. v ! ?p a) [0..<N] = map (\<lambda>a. v' ! ?p a) [0..<N] \<longrightarrow> v = v'"
    using permuted_injective[OF bij] by blast
  have init: "\<forall>n d out P. Problem_init rcm n d = (out, Inr P) \<and> matrix P = A \<longrightarrow>
                  build_matrix_and_rhs n d = (out, Some A, Some (rhs P))
                \<and> reordered_matrix P = R"
  proof (intro allI impI)
    fix n d out P assume h: "Problem_init rcm n d = (out, Inr P) \<and> matrix P = A"
    from Problem_init_fields[of rcm n d out P] h obtain b where
      "build_matrix_and_rhs n d = (out, Some (matrix P), Some b)" "rhs P = b"
      "reorder rcm (Some (matrix P)) = Inr (reordered_matrix P)"
      by blast
    then show "build_matrix_and_rhs n d = (out, Some A, Some (rhs P)) \<and> reordered_matrix P = R"
      using h R by simp
  qed
  have "reorder rcm (Some A) = Inr R \<and> square_mat N R
           \<and> bij_betw ?p {..<N} {..<N}
           \<and> (\<forall>a<N. \<forall>b<N. R ! a ! b = A ! ?p a ! ?p b)
           \<and> (symmetric_mat A \<longrightarrow> symmetric_mat R)
           \<and> (positive_definite A \<longleftrightarrow> positive_definite R)
           \<and> (\<forall>lam v. eigenpair A lam v \<longrightarrow> eigenpair R lam (map (\<lambda>a. v ! ?p a) [0..<N]))
           \<and> (\<forall>lam w. eigenpair R lam w \<longrightarrow>
                 (\<exists>v. eigenpair A lam v \<and> w = map (\<lambda>a. v ! ?p a) [0..<N]))
           \<and> (\<forall>(v::vec) v'. length v = N \<and> length v' = N
                  \<and> map (\<lambda>a. v ! ?p a) [0..<N] = map (\<lambda>a. v' ! ?p a) [0..<N] \<longrightarrow> v = v')
           \<and> (\<forall>n d out P. Problem_init rcm n d = (out, Inr P) \<and> matrix P = A \<longrightarrow>
                  build_matrix_and_rhs n d = (out, Some A, Some (rhs P))
                \<and> reordered_matrix P = R)"
    using R sqR bij ent sym pd fwd bwd inj init by blast
  then show ?thesis by blast
qed

theorem reorder_symmetric_permutation_witness:
  "square_mat 16 matrix_n4 \<and> (0::nat) < 16
   \<and> distinct (rcm_n4 matrix_n4) \<and> set (rcm_n4 matrix_n4) = {..<16}
   \<and> reorder rcm_n4 (Some matrix_n4) = Inr reordered_n4
   \<and> symmetric_mat matrix_n4 \<and> symmetric_mat reordered_n4
   \<and> positive_definite matrix_n4 \<and> positive_definite reordered_n4
   \<and> eigenpair matrix_n4 1 [1, 0, 0, 0, 0, 0, 0, 0, 0, 0, 0, 0, 0, 0, 0, 0]
   \<and> (\<exists>w. eigenpair reordered_n4 1 w)
   \<and> Problem_init rcm_n4 4 2 = ([], Inr problem_n4) \<and> matrix problem_n4 = matrix_n4
   \<and> build_matrix_and_rhs 4 2 = ([], Some matrix_n4, Some (rhs problem_n4))
   \<and> reordered_matrix problem_n4 = reordered_n4"
proof -
  let ?e = "[1, 0, 0, 0, 0, 0, 0, 0, 0, 0, 0, 0, 0, 0, 0, 0 :: real]"
  have sq: "square_mat 16 matrix_n4" by (simp add: square_mat_def matrix_n4_def)
  have pos: "(0::nat) < 16" by simp
  have d: "distinct (rcm_n4 matrix_n4)" by (simp add: rcm_n4_def)
  have s: "set (rcm_n4 matrix_n4) = {..<16}"
  proof (rule card_subset_eq)
    show "finite {..<(16::nat)}" by simp
    show "set (rcm_n4 matrix_n4) \<subseteq> {..<16}" by (simp add: rcm_n4_def)
    have "card (set (rcm_n4 matrix_n4)) = length (rcm_n4 matrix_n4)" by (rule distinct_card[OF d])
    then show "card (set (rcm_n4 matrix_n4)) = card {..<(16::nat)}" by (simp add: rcm_n4_def)
  qed
  from assemble_2d_final[of 4] obtain A b where
    a: "assemble_2d 4 = (A, b)" "square_mat (4 * 4) A"
       "\<forall>r<4 * 4. \<forall>c<4 * 4. A ! r ! c
           = final_entry (\<lambda>p. on_boundary_2d p 4) (\<lambda>p. get_neighbors_2d p 4) 4 r c"
    by blast
  have A: "A = matrix_n4" using a(1) matrix_n4 by simp
  have sym: "symmetric_mat matrix_n4" using final_2d_symmetric[OF a(2,3)] A by simp
  have pd: "positive_definite matrix_n4"
    unfolding positive_definite_def A[symmetric] square_mat_length[OF a(2)]
    using final_2d_pos_def[OF _ a(2,3)] by auto
  have ep: "eigenpair matrix_n4 1 ?e"
    unfolding eigenpair_def
  proof (intro conjI)
    show "length ?e = length matrix_n4" by (simp add: matrix_n4_def)
    show "\<exists>r<length matrix_n4. ?e ! r \<noteq> 0" by (intro exI[of _ 0]) (simp add: matrix_n4_def)
    show "mat_vec matrix_n4 ?e = map (\<lambda>t. 1 * t) ?e"
      by (simp add: mat_vec_def dot_def matrix_n4_def)
  qed
  from reorder_symmetric_permutation[where N = 16 and A = matrix_n4 and rcm = rcm_n4]
    sq pos d s obtain R p where
    r: "reorder rcm_n4 (Some matrix_n4) = Inr R"
       "symmetric_mat matrix_n4 \<longrightarrow> symmetric_mat R"
       "positive_definite matrix_n4 \<longleftrightarrow> positive_definite R"
       "\<forall>lam v. eigenpair matrix_n4 lam v \<longrightarrow> eigenpair R lam (map (\<lambda>a. v ! p a) [0..<16])"
       "\<forall>n d out P. Problem_init rcm_n4 n d = (out, Inr P) \<and> matrix P = matrix_n4 \<longrightarrow>
                  build_matrix_and_rhs n d = (out, Some matrix_n4, Some (rhs P))
                \<and> reordered_matrix P = R"
    by blast
  have R: "R = reordered_n4" using r(1) reorder_n4 by simp
  have m: "matrix problem_n4 = matrix_n4" by (simp add: problem_n4_def)
  have "build_matrix_and_rhs 4 2 = ([], Some matrix_n4, Some (rhs problem_n4))
        \<and> reordered_matrix problem_n4 = R"
    using r(5) problem_n4_init m by blast
  moreover have "\<exists>w. eigenpair reordered_n4 1 w" using r(4) ep R by blast
  ultimately show ?thesis
    using sq d s r(1,2,3) sym pd ep problem_n4_init m unfolding R by simp
qed

end
